theory Spec2Isabelle
  imports Main "HOL-Library.Multiset"
begin

unbundle bit_operations_syntax

section \<open>The small integer set of \<open>src/smallintset.c\<close>\<close>

text \<open>
  A shallow embedding of \<open>smallintset.c\<close>: an open-addressing hash set of small positive
  integers, stored in an array whose element type is chosen among \<open>uint8_t\<close>,
  \<open>uint16_t\<close> and \<open>uint32_t\<close>.

  Conventions of the embedding.
  \<^item> \<open>size_t\<close> and \<open>uint_t\<close> are 64-bit; values are \<open>nat\<close>, and the operations that can
    leave the range (\<open>val + 1\<close>, \<open>sz << 1\<close>, \<open>sz << 2\<close>, \<open>newsz <<= 1\<close>) are written
    with their wrap-around modulo \<open>2 ^ 64\<close>.
  \<^item> An array is its element type together with the list of its slots; a store converts
    the \<open>size_t\<close> value to the element type, that is, reduces it modulo \<open>2 ^ width\<close>.
  \<^item> \<open>abort()\<close> and a failing \<open>assert\<close> are results of type \<open>fault\<close>; a read or write
    outside the array (undefined behaviour in C) is the fault \<open>OutOfBounds\<close>.
  \<^item> The code runs on one thread here: relaxed, acquire and release accesses are plain
    reads and writes, and the garbage-collector bookkeeping (\<open>JL_GC_PUSH1\<close>, \<open>JL_GC_POP\<close>,
    \<open>jl_gc_wb\<close>) has no effect on the values. The allocator is assumed to succeed.
  \<^item> The published pointer \<open>*pcache\<close> is passed in as the current array, and the array
    that is current when the function returns is the result.
  \<^item> \<open>HT_N_INLINE\<close> is declared in a header that is not part of the sources at hand; it
    is a parameter \<open>n_inline\<close> of \<open>jl_smallintset_insert\<close> (Julia's \<open>htable.h\<close> has 32).
\<close>

subsection \<open>Data\<close>

datatype fault = Aborted | AssertionFailed | OutOfBounds

datatype eltype = UInt8 | UInt16 | UInt32 | AnyT | OtherT

record jl_array =
  el :: eltype
  slots :: "nat list"

definition jl_array_nrows :: "jl_array \<Rightarrow> nat" where
  "jl_array_nrows a = length (slots a)"

text \<open>The modulus of \<open>size_t\<close> arithmetic.\<close>

definition size_mod :: nat where
  "size_mod = 2 ^ 64"

text \<open>\<open>#define max_probe(size) ((size) <= 1024 ? 16 : (size) >> 6)\<close>\<close>

definition max_probe :: "nat \<Rightarrow> nat" where
  "max_probe sz = (if sz \<le> 1024 then 16 else drop_bit 6 sz)"

text \<open>
  \<open>#define h2index(hv, sz) (size_t)((hv) & ((sz)-1))\<close>. Every use is guarded by
  \<open>sz \<noteq> 0\<close>, so \<open>sz - 1\<close> does not wrap.
\<close>

definition h2index :: "nat \<Rightarrow> nat \<Rightarrow> nat" where
  "h2index hv sz = hv AND (sz - 1)"

subsection \<open>Slot access\<close>

definition load_slot :: "jl_array \<Rightarrow> nat \<Rightarrow> fault + nat" where
  "load_slot arr idx = (if idx < length (slots arr) then Inr (slots arr ! idx) else Inl OutOfBounds)"

definition store_slot :: "jl_array \<Rightarrow> nat \<Rightarrow> nat \<Rightarrow> fault + jl_array" where
  "store_slot arr idx v =
     (if idx < length (slots arr) then Inr (arr\<lparr>slots := (slots arr)[idx := v]\<rparr>)
      else Inl OutOfBounds)"

definition jl_intref :: "jl_array \<Rightarrow> nat \<Rightarrow> fault + nat" where
  "jl_intref arr idx =
     (case el arr of
        UInt8 \<Rightarrow> load_slot arr idx
      | UInt16 \<Rightarrow> load_slot arr idx
      | UInt32 \<Rightarrow> load_slot arr idx
      | _ \<Rightarrow> Inl Aborted)"

definition jl_intref_acquire :: "jl_array \<Rightarrow> nat \<Rightarrow> fault + nat" where
  "jl_intref_acquire arr idx =
     (case el arr of
        UInt8 \<Rightarrow> load_slot arr idx
      | UInt16 \<Rightarrow> load_slot arr idx
      | UInt32 \<Rightarrow> load_slot arr idx
      | _ \<Rightarrow> Inl Aborted)"

definition jl_intset_release :: "jl_array \<Rightarrow> nat \<Rightarrow> nat \<Rightarrow> fault + jl_array" where
  "jl_intset_release arr idx val =
     (case el arr of
        UInt8 \<Rightarrow> store_slot arr idx (val mod 2 ^ 8)
      | UInt16 \<Rightarrow> store_slot arr idx (val mod 2 ^ 16)
      | UInt32 \<Rightarrow> store_slot arr idx (val mod 2 ^ 32)
      | _ \<Rightarrow> Inl Aborted)"

definition jl_max_int :: "jl_array \<Rightarrow> fault + nat" where
  "jl_max_int arr =
     (case el arr of
        UInt8 \<Rightarrow> Inr 0xFF
      | UInt16 \<Rightarrow> Inr 0xFFFF
      | UInt32 \<Rightarrow> Inr 0xFFFFFFFF
      | AnyT \<Rightarrow> Inr 0
      | OtherT \<Rightarrow> Inl Aborted)"

subsection \<open>Allocation\<close>

definition jl_alloc_int_1d :: "nat \<Rightarrow> nat \<Rightarrow> fault + jl_array" where
  "jl_alloc_int_1d np len =
     (if np < 0xFF then Inr \<lparr>el = UInt8, slots = replicate len 0\<rparr>
      else if np < 0xFFFF then Inr \<lparr>el = UInt16, slots = replicate len 0\<rparr>
      else if np < 0x7FFFFFFF then Inr \<lparr>el = UInt32, slots = replicate len 0\<rparr>
      else Inl AssertionFailed)"

subsection \<open>Lookup\<close>

text \<open>
  The \<open>do ... while\<close> loop of \<open>jl_smallintset_lookup\<close>: one call is one pass through the
  body, at the current \<open>index\<close> and \<open>iter\<close>. The result is the \<open>ssize_t\<close> that the C
  function returns.
\<close>

function lookup_loop ::
  "jl_array \<Rightarrow> (nat \<Rightarrow> 'k \<Rightarrow> 'd \<Rightarrow> nat \<Rightarrow> bool) \<Rightarrow> 'k \<Rightarrow> 'd \<Rightarrow> nat \<Rightarrow> nat \<Rightarrow> nat \<Rightarrow> nat \<Rightarrow>
   nat \<Rightarrow> nat \<Rightarrow> fault + int"
where
  "lookup_loop cache eq key data hv sz maxprobe orig index iter =
     (case jl_intref_acquire cache index of
        Inl e \<Rightarrow> Inl e
      | Inr val1 \<Rightarrow>
          if val1 = 0 then Inr (- 1)
          else if eq (val1 - 1) key data hv then Inr (int (val1 - 1))
          else
            let index' = (index + 1) AND (sz - 1);
                iter' = iter + 1
            in if iter' \<le> maxprobe \<and> index' \<noteq> orig
               then lookup_loop cache eq key data hv sz maxprobe orig index' iter'
               else Inr (- 1))"
  by pat_completeness auto
termination
  by (relation "measure (\<lambda>(cache, eq, key, data, hv, sz, maxprobe, orig, index, iter).
        Suc maxprobe - iter)") auto

declare lookup_loop.simps [simp del]

definition jl_smallintset_lookup ::
  "jl_array \<Rightarrow> (nat \<Rightarrow> 'k \<Rightarrow> 'd \<Rightarrow> nat \<Rightarrow> bool) \<Rightarrow> 'k \<Rightarrow> 'd \<Rightarrow> nat \<Rightarrow> fault + int"
where
  "jl_smallintset_lookup cache eq key data hv =
     (let sz = jl_array_nrows cache
      in if sz = 0 then Inr (- 1)
         else
           let maxprobe = max_probe sz;
               index = h2index hv sz;
               orig = index
           in lookup_loop cache eq key data hv sz maxprobe orig index 0)"

subsection \<open>Direct placement\<close>

text \<open>
  The loop of the C function \<open>smallintset_insert_\<close>, which is \<open>smallintset_insert_aux\<close>
  here (a name cannot end in an underscore). The result pairs the returned flag (\<open>1\<close> is
  \<open>True\<close>) with the array after the call.
\<close>

function insert_loop ::
  "jl_array \<Rightarrow> nat \<Rightarrow> nat \<Rightarrow> nat \<Rightarrow> nat \<Rightarrow> nat \<Rightarrow> nat \<Rightarrow> fault + (bool \<times> jl_array)"
where
  "insert_loop a val1 sz maxprobe orig index iter =
     (case jl_intref a index of
        Inl e \<Rightarrow> Inl e
      | Inr v \<Rightarrow>
          if v = 0 then
            (case jl_intset_release a index val1 of
               Inl e \<Rightarrow> Inl e
             | Inr a' \<Rightarrow> Inr (True, a'))
          else
            let index' = (index + 1) AND (sz - 1);
                iter' = iter + 1
            in if iter' \<le> maxprobe \<and> index' \<noteq> orig
               then insert_loop a val1 sz maxprobe orig index' iter'
               else Inr (False, a))"
  by pat_completeness auto
termination
  by (relation "measure (\<lambda>(a, val1, sz, maxprobe, orig, index, iter). Suc maxprobe - iter)") auto

declare insert_loop.simps [simp del]

definition smallintset_insert_aux :: "jl_array \<Rightarrow> nat \<Rightarrow> nat \<Rightarrow> fault + (bool \<times> jl_array)" where
  "smallintset_insert_aux a hv val1 =
     (let sz = jl_array_nrows a
      in if sz \<le> 1 then Inr (False, a)
         else
           let index = h2index hv sz;
               orig = index;
               maxprobe = max_probe sz
           in insert_loop a val1 sz maxprobe orig index 0)"

subsection \<open>Rehash\<close>

text \<open>The first loop of \<open>smallintset_rehash\<close>: the largest slot value, or \<open>np\<close> if larger.\<close>

fun rehash_np :: "jl_array \<Rightarrow> nat list \<Rightarrow> nat \<Rightarrow> fault + nat" where
  "rehash_np a [] np = Inr np"
| "rehash_np a (i # is) np =
     (case jl_intref a i of
        Inl e \<Rightarrow> Inl e
      | Inr val \<Rightarrow> rehash_np a is (if val > np then val else np))"

text \<open>
  The inner \<open>for\<close> loop, over the slot indices still to visit. The flag of the result is
  the test \<open>i == sz\<close> after the loop: \<open>False\<close> when the loop was left by \<open>break\<close>.
\<close>

fun rehash_fill ::
  "(nat \<Rightarrow> 'd \<Rightarrow> nat) \<Rightarrow> 'd \<Rightarrow> jl_array \<Rightarrow> nat list \<Rightarrow> jl_array \<Rightarrow> fault + (bool \<times> jl_array)"
where
  "rehash_fill hash data a [] newa = Inr (True, newa)"
| "rehash_fill hash data a (i # is) newa =
     (case jl_intref a i of
        Inl e \<Rightarrow> Inl e
      | Inr val1 \<Rightarrow>
          if val1 \<noteq> 0 then
            (case smallintset_insert_aux newa (hash (val1 - 1) data) val1 of
               Inl e \<Rightarrow> Inl e
             | Inr (ok, newa') \<Rightarrow>
                 if \<not> ok then Inr (False, newa')
                 else rehash_fill hash data a is newa')
          else rehash_fill hash data a is newa)"

text \<open>
  The \<open>while (1)\<close> loop of \<open>smallintset_rehash\<close>. It has no bound of its own, so the
  result is an option: \<open>None\<close> is a loop that never ends.
\<close>

partial_function (option) rehash_loop ::
  "(nat \<Rightarrow> 'd \<Rightarrow> nat) \<Rightarrow> 'd \<Rightarrow> jl_array \<Rightarrow> nat \<Rightarrow> nat \<Rightarrow> (fault + jl_array) option"
where
  "rehash_loop hash data a np newsz =
     (case jl_alloc_int_1d np newsz of
        Inl e \<Rightarrow> Some (Inl e)
      | Inr newa \<Rightarrow>
          (case rehash_fill hash data a [0..<jl_array_nrows a] newa of
             Inl e \<Rightarrow> Some (Inl e)
           | Inr (done, newa') \<Rightarrow>
               if done then Some (Inr newa')
               else rehash_loop hash data a np ((2 * newsz) mod size_mod)))"

declare rehash_loop.simps [code]

definition smallintset_rehash ::
  "(nat \<Rightarrow> 'd \<Rightarrow> nat) \<Rightarrow> 'd \<Rightarrow> jl_array \<Rightarrow> nat \<Rightarrow> nat \<Rightarrow> (fault + jl_array) option"
where
  "smallintset_rehash hash data a newsz np =
     (case rehash_np a [0..<jl_array_nrows a] np of
        Inl e \<Rightarrow> Some (Inl e)
      | Inr np' \<Rightarrow> rehash_loop hash data a np' newsz)"

subsection \<open>Insert\<close>

text \<open>The capacity that \<open>jl_smallintset_insert\<close> asks for when the table is full.\<close>

definition grow_newsz :: "nat \<Rightarrow> nat \<Rightarrow> nat" where
  "grow_newsz n_inline sz =
     (if sz < n_inline then n_inline
      else if sz \<ge> 2 ^ 19 \<or> sz \<le> 2 ^ 8 then (2 * sz) mod size_mod
      else (4 * sz) mod size_mod)"

text \<open>The \<open>while (1)\<close> loop of \<open>jl_smallintset_insert\<close>, on the current array.\<close>

partial_function (option) insert_retry ::
  "nat \<Rightarrow> (nat \<Rightarrow> 'd \<Rightarrow> nat) \<Rightarrow> nat \<Rightarrow> 'd \<Rightarrow> jl_array \<Rightarrow> (fault + jl_array) option"
where
  "insert_retry n_inline hash val data a =
     (case smallintset_insert_aux a (hash val data) ((val + 1) mod size_mod) of
        Inl e \<Rightarrow> Some (Inl e)
      | Inr (ok, a') \<Rightarrow>
          if ok then Some (Inr a')
          else
            Option.bind
              (smallintset_rehash hash data a' (grow_newsz n_inline (jl_array_nrows a')) 0)
              (\<lambda>r. case r of
                 Inl e \<Rightarrow> Some (Inl e)
               | Inr a'' \<Rightarrow> insert_retry n_inline hash val data a''))"

declare insert_retry.simps [code]

definition jl_smallintset_insert ::
  "nat \<Rightarrow> (nat \<Rightarrow> 'd \<Rightarrow> nat) \<Rightarrow> nat \<Rightarrow> 'd \<Rightarrow> jl_array \<Rightarrow> (fault + jl_array) option"
where
  "jl_smallintset_insert n_inline hash val data a =
     (case jl_max_int a of
        Inl e \<Rightarrow> Some (Inl e)
      | Inr m \<Rightarrow>
          if (val + 1) mod size_mod > m then
            Option.bind
              (smallintset_rehash hash data a (jl_array_nrows a) ((val + 1) mod size_mod))
              (\<lambda>r. case r of
                 Inl e \<Rightarrow> Some (Inl e)
               | Inr a' \<Rightarrow> insert_retry n_inline hash val data a')
          else insert_retry n_inline hash val data a)"

text \<open>The capacity after \<open>k\<close> executions of \<open>newsz <<= 1\<close>.\<close>

primrec doubled :: "nat \<Rightarrow> nat \<Rightarrow> nat" where
  "doubled 0 n = n"
| "doubled (Suc k) n = doubled k ((2 * n) mod size_mod)"

subsection \<open>A hash function and an equality test for concrete runs\<close>

text \<open>
  The scenario of the specification: no auxiliary data, the hash of a logical index is the
  index itself, and the equality test accepts exactly the index that is the key.
\<close>

definition hash_id :: "nat \<Rightarrow> unit \<Rightarrow> nat" where
  "hash_id i d = i"

definition eq_id :: "nat \<Rightarrow> nat \<Rightarrow> unit \<Rightarrow> nat \<Rightarrow> bool" where
  "eq_id i k d hv = (i = k)"

subsection \<open>The entries of a table\<close>

text \<open>The non-zero slot values, in increasing slot order.\<close>

definition entries :: "jl_array \<Rightarrow> nat list" where
  "entries a = filter (\<lambda>v. v \<noteq> 0) (slots a)"

text \<open>The element types that \<open>jl_intref\<close> and \<open>jl_intset_release\<close> accept.\<close>

definition numeric :: "jl_array \<Rightarrow> bool" where
  "numeric a = (el a = UInt8 \<or> el a = UInt16 \<or> el a = UInt32)"

text \<open>
  The states of an index set over its life: a table of capacity 0 or 1 that holds
  nothing, or a table of at least the baseline capacity.
\<close>

definition table_inv :: "nat \<Rightarrow> jl_array \<Rightarrow> bool" where
  "table_inv n_inline a =
     (jl_array_nrows a \<le> 1 \<and> entries a = [] \<or> n_inline \<le> jl_array_nrows a)"

subsection \<open>The probe sequence and the lookup in the words of the specification\<close>

text \<open>Section 4.2: the maximal probe length is 16 if \<open>sz \<le> 1024\<close>, else \<open>sz / 64\<close>.\<close>

definition spec_max_probe :: "nat \<Rightarrow> nat" where
  "spec_max_probe sz = (if sz \<le> 1024 then 16 else sz div 64)"

text \<open>
  The slots visited from slot \<open>i\<close> when \<open>n\<close> visits are left: step by \<open>+1 mod sz\<close>, and
  stop early on returning to the starting slot.
\<close>

fun spec_probe_from :: "nat \<Rightarrow> nat \<Rightarrow> nat \<Rightarrow> nat \<Rightarrow> nat list" where
  "spec_probe_from sz start i 0 = []"
| "spec_probe_from sz start i (Suc n) =
     i # (if (i + 1) mod sz = start then [] else spec_probe_from sz start ((i + 1) mod sz) n)"

text \<open>The sequence starts at \<open>h mod sz\<close> and visits at most \<open>maxProbe + 1\<close> slots.\<close>

definition spec_probe_seq :: "nat \<Rightarrow> nat \<Rightarrow> nat list" where
  "spec_probe_seq h sz = spec_probe_from sz (h mod sz) (h mod sz) (spec_max_probe sz + 1)"

text \<open>
  Section 4.3, over the values of the visited slots: not found at the first zero, the
  decoded index at the first value that the equality test accepts, not found when the
  visits are exhausted. Not found is \<open>-1\<close>.
\<close>

fun spec_scan :: "(nat \<Rightarrow> 'k \<Rightarrow> 'd \<Rightarrow> nat \<Rightarrow> bool) \<Rightarrow> 'k \<Rightarrow> 'd \<Rightarrow> nat \<Rightarrow> nat list \<Rightarrow> int" where
  "spec_scan eq key data h [] = - 1"
| "spec_scan eq key data h (v # vs) =
     (if v = 0 then - 1
      else if eq (v - 1) key data h then int (v - 1)
      else spec_scan eq key data h vs)"

definition spec_lookup ::
  "jl_array \<Rightarrow> (nat \<Rightarrow> 'k \<Rightarrow> 'd \<Rightarrow> nat \<Rightarrow> bool) \<Rightarrow> 'k \<Rightarrow> 'd \<Rightarrow> nat \<Rightarrow> int"
where
  "spec_lookup cache eq key data h =
     (let sz = length (slots cache)
      in if sz = 0 then - 1
         else spec_scan eq key data h (map (\<lambda>p. slots cache ! p) (spec_probe_seq h sz)))"

subsection \<open>Re-insertion in the words of the specification\<close>

text \<open>
  Section 4.6, step 4: the given entries are placed one after the other, each with the
  hash of its decoded index, by the placement of insert; the first placement that fails
  ends the build with the flag \<open>False\<close>.
\<close>

fun reinsert_entries ::
  "(nat \<Rightarrow> 'd \<Rightarrow> nat) \<Rightarrow> 'd \<Rightarrow> nat list \<Rightarrow> jl_array \<Rightarrow> fault + (bool \<times> jl_array)"
where
  "reinsert_entries hash data [] t = Inr (True, t)"
| "reinsert_entries hash data (v # vs) t =
     (case smallintset_insert_aux t (hash (v - 1) data) v of
        Inl e \<Rightarrow> Inl e
      | Inr (ok, t') \<Rightarrow>
          if ok then reinsert_entries hash data vs t' else Inr (False, t'))"

section \<open>Basic facts\<close>

subsection \<open>Masks and probe lengths\<close>

lemma pow2_mask: "(x::nat) AND (2 ^ n - 1) = x mod 2 ^ n"
proof -
  have "x AND (2 ^ n - 1) = x AND mask n" by (simp only: mask_eq_exp_minus_1)
  also have "\<dots> = take_bit n x" by (simp only: take_bit_eq_mask)
  also have "\<dots> = x mod 2 ^ n" by (simp only: take_bit_eq_mod)
  finally show ?thesis .
qed

lemma max_probe_spec: "max_probe sz = spec_max_probe sz"
  by (simp add: max_probe_def spec_max_probe_def drop_bit_eq_div)

subsection \<open>Slot access\<close>

lemma jl_intref_Inr:
  "jl_intref a i = Inr v \<Longrightarrow> numeric a \<and> i < length (slots a) \<and> v = slots a ! i"
  by (auto simp: jl_intref_def load_slot_def numeric_def split: eltype.splits if_splits)

lemma jl_intref_numeric:
  "numeric a \<Longrightarrow> i < length (slots a) \<Longrightarrow> jl_intref a i = Inr (slots a ! i)"
  by (auto simp: jl_intref_def load_slot_def numeric_def)

lemma jl_intref_acquire_numeric:
  "numeric a \<Longrightarrow> i < length (slots a) \<Longrightarrow> jl_intref_acquire a i = Inr (slots a ! i)"
  by (auto simp: jl_intref_acquire_def load_slot_def numeric_def)

lemma jl_intref_fault: "jl_intref a i = Inl e \<Longrightarrow> e \<noteq> AssertionFailed"
  by (auto simp: jl_intref_def load_slot_def split: eltype.splits if_splits)

lemma jl_intset_release_fault: "jl_intset_release a i v = Inl e \<Longrightarrow> e \<noteq> AssertionFailed"
  by (auto simp: jl_intset_release_def store_slot_def split: eltype.splits if_splits)

subsection \<open>Direct placement\<close>

lemma insert_loop_fail_same:
  "insert_loop a v sz mp orig idx it = Inr (False, a') \<Longrightarrow> a' = a"
proof (induction a v sz mp orig idx it rule: insert_loop.induct)
  case (1 a val1 sz maxprobe orig index iter)
  show ?case using "1.prems" "1.IH"
    by (subst (asm) insert_loop.simps) (auto split: sum.splits if_splits simp: Let_def)
qed

lemma insert_aux_fail_same:
  "smallintset_insert_aux a hv v = Inr (False, a') \<Longrightarrow> a' = a"
  by (auto simp: smallintset_insert_aux_def Let_def insert_loop_fail_same split: if_splits)

lemma insert_loop_ok:
  "insert_loop a v sz mp orig idx it = Inr (True, a') \<Longrightarrow>
     \<exists>p. jl_intref a p = Inr 0 \<and> jl_intset_release a p v = Inr a'"
proof (induction a v sz mp orig idx it rule: insert_loop.induct)
  case (1 a val1 sz maxprobe orig index iter)
  show ?case using "1.prems" "1.IH"
    by (subst (asm) insert_loop.simps) (auto split: sum.splits if_splits simp: Let_def)
qed

lemma insert_aux_ok:
  "smallintset_insert_aux a hv v = Inr (True, a') \<Longrightarrow>
     2 \<le> length (slots a) \<and> (\<exists>p. jl_intref a p = Inr 0 \<and> jl_intset_release a p v = Inr a')"
  by (auto simp: smallintset_insert_aux_def Let_def jl_array_nrows_def split: if_splits
      dest!: insert_loop_ok)

lemma insert_aux_small:
  "length (slots a) \<le> 1 \<Longrightarrow> smallintset_insert_aux a hv v = Inr (False, a)"
  by (simp add: smallintset_insert_aux_def jl_array_nrows_def)

lemma insert_loop_fault:
  "insert_loop a v sz mp orig idx it = Inl e \<Longrightarrow> e \<noteq> AssertionFailed"
proof (induction a v sz mp orig idx it rule: insert_loop.induct)
  case (1 a val1 sz maxprobe orig index iter)
  show ?case using "1.prems" "1.IH"
    by (subst (asm) insert_loop.simps)
      (auto split: sum.splits if_splits simp: Let_def
        dest: jl_intref_fault jl_intset_release_fault)
qed

lemma insert_aux_fault: "smallintset_insert_aux a hv v = Inl e \<Longrightarrow> e \<noteq> AssertionFailed"
  by (auto simp: smallintset_insert_aux_def Let_def split: if_splits dest: insert_loop_fault)

subsection \<open>Allocation and the loops of rehash\<close>

lemma alloc_fault_iff:
  "jl_alloc_int_1d np len = Inl e \<longleftrightarrow> e = AssertionFailed \<and> 2147483647 \<le> np"
  by (auto simp: jl_alloc_int_1d_def)

lemma rehash_fill_fault:
  "rehash_fill hash data a is newa = Inl e \<Longrightarrow> e \<noteq> AssertionFailed"
proof (induction "is" arbitrary: newa)
  case Nil
  then show ?case by simp
next
  case (Cons i "is")
  then show ?case
    by (auto split: sum.splits if_splits prod.splits dest: jl_intref_fault insert_aux_fault)
qed

lemma rehash_np_max:
  "rehash_np a is np = Inr np' \<Longrightarrow>
     np \<le> np' \<and> (\<forall>i \<in> set is. slots a ! i \<le> np') \<and>
     (np' = np \<or> (\<exists>i \<in> set is. np' = slots a ! i))"
proof (induction "is" arbitrary: np)
  case Nil
  then show ?case by simp
next
  case (Cons i "is")
  from Cons.prems obtain v where rd: "jl_intref a i = Inr v"
    and rest: "rehash_np a is (if v > np then v else np) = Inr np'"
    by (auto split: sum.splits)
  have v: "v = slots a ! i" using rd by (simp add: jl_intref_Inr)
  from Cons.IH[OF rest] show ?case using v by (auto split: if_splits)
qed

lemma rehash_loop_assert:
  "2147483647 \<le> np \<Longrightarrow> rehash_loop hash data a np newsz = Some (Inl AssertionFailed)"
  by (subst rehash_loop.simps) (simp add: jl_alloc_int_1d_def)

lemma rehash_loop_no_assert:
  assumes "rehash_loop hash data a np newsz = Some r"
  shows "np < 2147483647 \<longrightarrow> r \<noteq> Inl AssertionFailed"
proof (rule rehash_loop.raw_induct[where P = "\<lambda>hash data a np newsz r.
         np < 2147483647 \<longrightarrow> r \<noteq> Inl AssertionFailed", OF _ assms])
  fix f :: "(nat \<Rightarrow> 'a \<Rightarrow> nat) \<Rightarrow> 'a \<Rightarrow> jl_array \<Rightarrow> nat \<Rightarrow> nat \<Rightarrow> (fault + jl_array) option"
  fix hash data a np newsz y
  assume IH: "\<And>hash data a np newsz y. f hash data a np newsz = Some y \<Longrightarrow>
      np < 2147483647 \<longrightarrow> y \<noteq> Inl AssertionFailed"
  assume body: "(case jl_alloc_int_1d np newsz of
        Inl e \<Rightarrow> Some (Inl e)
      | Inr newa \<Rightarrow>
          (case rehash_fill hash data a [0..<jl_array_nrows a] newa of
             Inl e \<Rightarrow> Some (Inl e)
           | Inr (done, newa') \<Rightarrow>
               if done then Some (Inr newa')
               else f hash data a np ((2 * newsz) mod size_mod))) = Some y"
  show "np < 2147483647 \<longrightarrow> y \<noteq> Inl AssertionFailed"
  proof
    assume small: "np < 2147483647"
    obtain newa where al: "jl_alloc_int_1d np newsz = Inr newa"
      using small by (cases "jl_alloc_int_1d np newsz") (auto simp: alloc_fault_iff)
    show "y \<noteq> Inl AssertionFailed"
      using body IH small
      by (auto simp: al split: sum.splits prod.splits if_splits dest: rehash_fill_fault)
  qed
qed

subsection \<open>The lookup loop follows the probe sequence\<close>

lemma lookup_loop_scan:
  "numeric cache \<Longrightarrow> length (slots cache) = sz \<Longrightarrow> sz = 2 ^ k \<Longrightarrow>
     index < sz \<Longrightarrow> iter \<le> maxprobe \<Longrightarrow>
     lookup_loop cache eq key data hv sz maxprobe orig index iter =
       Inr (spec_scan eq key data hv
              (map (\<lambda>p. slots cache ! p) (spec_probe_from sz orig index (Suc maxprobe - iter))))"
proof (induction cache eq key data hv sz maxprobe orig index iter rule: lookup_loop.induct)
  case (1 cache eq key data hv sz maxprobe orig index iter)
  note num = "1.prems"(1) and len = "1.prems"(2) and pw = "1.prems"(3)
  have rd: "jl_intref_acquire cache index = Inr (slots cache ! index)"
    using num len "1.prems" by (simp add: jl_intref_acquire_numeric)
  have nxt: "(index + 1) AND (sz - 1) = (index + 1) mod sz"
    using pw by (simp only: pow2_mask)
  have nxt': "Suc index AND (sz - Suc 0) = Suc index mod sz"
    using nxt by simp
  have fuel: "Suc maxprobe - iter = Suc (maxprobe - iter)"
    using "1.prems" by simp
  show ?case
  proof (cases "slots cache ! index = 0 \<or> eq (slots cache ! index - 1) key data hv")
    case True
    then show ?thesis
      by (subst lookup_loop.simps) (auto simp: rd fuel)
  next
    case False
    show ?thesis
    proof (cases "iter + 1 \<le> maxprobe \<and> (index + 1) mod sz \<noteq> orig")
      case True
      have lt: "(index + 1) mod sz < sz" using pw by simp
      have ih: "lookup_loop cache eq key data hv sz maxprobe orig ((index + 1) mod sz) (iter + 1) =
         Inr (spec_scan eq key data hv (map (\<lambda>p. slots cache ! p)
            (spec_probe_from sz orig ((index + 1) mod sz) (Suc maxprobe - (iter + 1)))))"
        using "1.IH"[of "slots cache ! index" "(index + 1) mod sz" "iter + 1"]
          rd nxt num len pw lt False True by simp
      show ?thesis using False True
        using ih by (subst lookup_loop.simps) (simp add: rd fuel nxt' Let_def)
    next
      case stop: False
      have nil: "(if (index + 1) mod sz = orig then []
          else spec_probe_from sz orig ((index + 1) mod sz) (maxprobe - iter)) = []"
      proof (cases "(index + 1) mod sz = orig")
        case True then show ?thesis by simp
      next
        case False
        with stop have "maxprobe - iter = 0" by simp
        then show ?thesis by simp
      qed
      have body: "lookup_loop cache eq key data hv sz maxprobe orig index iter = Inr (- 1)"
        using False stop by (subst lookup_loop.simps) (auto simp: rd nxt' Let_def)
      show ?thesis using False
        by (simp only: body fuel spec_probe_from.simps nil list.map spec_scan.simps) simp
    qed
  qed
qed

lemma lookup_refines:
  assumes "numeric cache" and "length (slots cache) = 2 ^ k"
  shows "jl_smallintset_lookup cache eq key data hv = Inr (spec_lookup cache eq key data hv)"
proof -
  let ?sz = "length (slots cache)"
  let ?o = "hv mod ?sz"
  have idx: "h2index hv ?sz = ?o"
    by (simp only: h2index_def assms(2) pow2_mask)
  have nz: "?sz \<noteq> 0" using assms(2) by simp
  have lt: "?o < ?sz" using nz by simp
  have "jl_smallintset_lookup cache eq key data hv =
      lookup_loop cache eq key data hv ?sz (max_probe ?sz) ?o ?o 0"
    using nz by (simp add: jl_smallintset_lookup_def jl_array_nrows_def Let_def idx)
  also have "\<dots> = Inr (spec_scan eq key data hv (map (\<lambda>p. slots cache ! p)
         (spec_probe_from ?sz ?o ?o (Suc (max_probe ?sz) - 0))))"
    by (rule lookup_loop_scan[OF assms(1) refl assms(2) lt]) simp
  also have "\<dots> = Inr (spec_lookup cache eq key data hv)"
    using nz by (simp add: spec_lookup_def Let_def spec_probe_seq_def max_probe_spec
        del: spec_probe_from.simps)
  finally show ?thesis .
qed

lemma lookup_empty:
  "slots cache = [] \<Longrightarrow> jl_smallintset_lookup cache eq key data hv = Inr (- 1)"
  by (simp add: jl_smallintset_lookup_def jl_array_nrows_def)

lemma spec_probe_from_length: "length (spec_probe_from sz start i n) \<le> n"
  by (induction sz start i n rule: spec_probe_from.induct) auto

lemma spec_probe_from_pos:
  "0 < n \<Longrightarrow> spec_probe_from sz start i n =
     i # (if (i + 1) mod sz = start then [] else spec_probe_from sz start ((i + 1) mod sz) (n - 1))"
  by (cases n) simp_all

subsection \<open>Short lists\<close>

lemma replicate_2: "replicate 2 x = [x, x]"
  by (simp add: numeral_eq_Suc)

lemma replicate_4: "replicate 4 x = [x, x, x, x]"
  by (simp add: numeral_eq_Suc)

subsection \<open>A failed placement has found every probed slot taken\<close>

lemma mod_back_to_start:
  assumes "(orig + j) mod sz = (orig :: nat)" "0 < j" "j \<le> sz"
  shows "j = sz"
  using assms
  by (metis add_left_imp_eq le_add_same_cancel1 le_neq_implies_less
    less_or_eq_imp_le mod_add_left_eq mod_eq_nat1E mod_less
    mod_mult_self1_is_0 not_gr_zero)

lemma mod_shift_le:
  assumes "(orig + i) mod sz = (orig + j) mod (sz :: nat)" "i \<le> j" "j < sz"
  shows "i = j"
proof (rule ccontr)
  assume ne: "i \<noteq> j"
  let ?o = "(orig + i) mod sz"
  have "(?o + (j - i)) mod sz = (orig + i + (j - i)) mod sz"
    by (simp add: mod_add_left_eq)
  also have "\<dots> = ?o" using assms(1,2) by simp
  finally have "j - i = sz"
    using ne assms(2,3) by (intro mod_back_to_start[of ?o "j - i" sz]) auto
  then show False using assms(3) by simp
qed

lemma mod_shift_inj:
  assumes "(orig + i) mod sz = (orig + j) mod (sz :: nat)" "i < sz" "j < sz"
  shows "i = j"
proof (cases "i \<le> j")
  case True
  then show ?thesis using assms mod_shift_le by blast
next
  case False
  then have "j = i" using assms mod_shift_le[of orig j sz i] by simp
  then show ?thesis by simp
qed

lemma probe_positions_card:
  assumes "m \<le> sz" and "length xs = sz"
    and "\<forall>j < m. xs ! ((orig + j) mod sz) \<noteq> (0::nat)"
  shows "m \<le> length (filter (\<lambda>v. v \<noteq> 0) xs)"
proof (cases "sz = 0")
  case True
  then show ?thesis using assms by simp
next
  case False
  let ?f = "\<lambda>j. (orig + j) mod sz"
  let ?S = "{i. i < length xs \<and> xs ! i \<noteq> 0}"
  have inj: "inj_on ?f {..<m}"
    using assms(1) by (auto intro!: inj_onI dest: mod_shift_inj)
  have sub: "?f ` {..<m} \<subseteq> ?S"
    using assms(2,3) False by auto
  have "m = card (?f ` {..<m})" using inj by (simp add: card_image)
  also have "\<dots> \<le> card ?S" by (rule card_mono) (use sub in auto)
  also have "\<dots> = length (filter (\<lambda>v. v \<noteq> 0) xs)"
    by (simp add: length_filter_conv_card)
  finally show ?thesis .
qed

lemma insert_loop_fail_step:
  assumes "insert_loop a v sz mp orig index it = Inr (False, a')"
  shows "\<exists>b. jl_intref a index = Inr b \<and> b \<noteq> 0 \<and>
     (it + 1 \<le> mp \<and> (index + 1) AND (sz - 1) \<noteq> orig \<longrightarrow>
        insert_loop a v sz mp orig ((index + 1) AND (sz - 1)) (it + 1) = Inr (False, a'))"
  using assms
  by (subst (asm) insert_loop.simps) (auto split: sum.splits if_splits simp: Let_def)

lemma insert_loop_fail_full:
  "insert_loop a v sz mp orig index it = Inr (False, a') \<Longrightarrow>
     length (slots a) = sz \<Longrightarrow> sz = 2 ^ k \<Longrightarrow> orig < sz \<Longrightarrow>
     index = (orig + it) mod sz \<Longrightarrow> it \<le> mp \<Longrightarrow> it < sz \<Longrightarrow>
     (\<forall>j. it \<le> j \<and> j < min (Suc mp) sz \<longrightarrow> slots a ! ((orig + j) mod sz) \<noteq> 0)"
proof (induction a v sz mp orig index it rule: insert_loop.induct)
  case (1 a val1 sz maxprobe orig index iter)
  note fail = "1.prems"(1) and len = "1.prems"(2) and pw = "1.prems"(3) and o = "1.prems"(4)
    and idx = "1.prems"(5) and itmp = "1.prems"(6) and itsz = "1.prems"(7)
  from insert_loop_fail_step[OF fail] obtain b where rd: "jl_intref a index = Inr b"
    and bnz: "b \<noteq> 0"
    and step: "iter + 1 \<le> maxprobe \<and> (index + 1) AND (sz - 1) \<noteq> orig \<longrightarrow>
        insert_loop a val1 sz maxprobe orig ((index + 1) AND (sz - 1)) (iter + 1) = Inr (False, a')"
    by blast
  have b: "b = slots a ! index" using rd
    by (auto simp: jl_intref_def load_slot_def split: eltype.splits if_splits)
  have nxt: "(index + 1) AND (sz - 1) = (orig + (iter + 1)) mod sz"
    using pw idx by (simp only: pow2_mask) (simp add: mod_Suc_eq)
  have here: "slots a ! ((orig + iter) mod sz) \<noteq> 0" using b bnz idx by simp
  show ?case
  proof (cases "iter + 1 \<le> maxprobe \<and> (orig + (iter + 1)) mod sz \<noteq> orig")
    case True
    have rec: "insert_loop a val1 sz maxprobe orig ((index + 1) AND (sz - 1)) (iter + 1) = Inr (False, a')"
      using step True nxt by simp
    have lt: "iter + 1 < sz"
    proof -
      have "iter + 1 \<noteq> sz"
      proof
        assume e: "iter + 1 = sz"
        have "(orig + (iter + 1)) mod sz = (orig + sz) mod sz" by (simp only: e)
        also have "\<dots> = orig" using o by simp
        finally show False using True by blast
      qed
      then show ?thesis using itsz by simp
    qed
    have ih: "\<forall>j. iter + 1 \<le> j \<and> j < min (Suc maxprobe) sz \<longrightarrow> slots a ! ((orig + j) mod sz) \<noteq> 0"
      using "1.IH"[OF rd bnz refl refl _ rec len pw o nxt _ lt] True nxt by simp
    show ?thesis
    proof (intro allI impI)
      fix j assume "iter \<le> j \<and> j < min (Suc maxprobe) sz"
      then show "slots a ! ((orig + j) mod sz) \<noteq> 0"
        using ih here by (cases "j = iter") (simp, simp)
    qed
  next
    case False
    have "min (Suc maxprobe) sz \<le> iter + 1"
    proof (cases "iter + 1 \<le> maxprobe")
      case True
      with False have ret: "(orig + (iter + 1)) mod sz = orig" by simp
      have "iter + 1 = sz"
      proof (rule mod_back_to_start[of orig "iter + 1" sz])
        show "(orig + (iter + 1)) mod sz = orig" by (rule ret)
        show "0 < iter + 1" by simp
        show "iter + 1 \<le> sz" using itsz by simp
      qed
      then show ?thesis by simp
    next
      case False
      then show ?thesis by simp
    qed
    then have only: "j = iter" if "iter \<le> j \<and> j < min (Suc maxprobe) sz" for j
      using that by linarith
    show ?thesis
    proof (intro allI impI)
      fix j assume "iter \<le> j \<and> j < min (Suc maxprobe) sz"
      then have "j = iter" by (rule only)
      then show "slots a ! ((orig + j) mod sz) \<noteq> 0" using here by simp
    qed
  qed
qed

lemma insert_aux_fail_full:
  assumes "smallintset_insert_aux a hv v = Inr (False, a')"
    and "length (slots a) = 2 ^ k" and "1 \<le> k"
  shows "min (Suc (max_probe (2 ^ k))) (2 ^ k) \<le> length (entries a)"
proof -
  let ?sz = "(2::nat) ^ k"
  let ?o = "hv mod ?sz"
  have big: "\<not> ?sz \<le> 1" using assms(3)
    by (metis One_nat_def Suc_le_eq not_less one_less_numeral_iff power_strict_increasing_iff
        power_0 semiring_norm(76))
  have idx: "h2index hv ?sz = ?o" by (simp only: h2index_def pow2_mask)
  have loop: "insert_loop a v ?sz (max_probe ?sz) ?o ?o 0 = Inr (False, a')"
    using assms(1) big
    by (simp add: smallintset_insert_aux_def jl_array_nrows_def assms(2) Let_def idx)
  have "\<forall>j. 0 \<le> j \<and> j < min (Suc (max_probe ?sz)) ?sz \<longrightarrow> slots a ! ((?o + j) mod ?sz) \<noteq> 0"
    by (rule insert_loop_fail_full[OF loop assms(2) refl]) simp_all
  then have all: "\<forall>j < min (Suc (max_probe ?sz)) ?sz. slots a ! ((?o + j) mod ?sz) \<noteq> 0"
    by simp
  show ?thesis
    unfolding entries_def
    by (rule probe_positions_card[OF _ assms(2) all]) simp
qed

subsection \<open>The probe sequence in closed form\<close>

lemma spec_probe_from_closed:
  "start < sz \<Longrightarrow> k < sz \<Longrightarrow>
     spec_probe_from sz start ((start + k) mod sz) n =
       map (\<lambda>j. (start + j) mod sz) [k..<min (k + n) sz]"
proof (induction n arbitrary: k)
  case 0
  then show ?case by simp
next
  case (Suc n)
  let ?i = "(start + k) mod sz"
  have nxt: "(?i + 1) mod sz = (start + (k + 1)) mod sz"
    by (simp add: mod_Suc_eq)
  show ?case
  proof (cases "k + 1 = sz")
    case True
    have "(start + (k + 1)) mod sz = start" using Suc.prems(1) True by simp
    then have "spec_probe_from sz start ?i (Suc n) = [?i]"
      using nxt by simp
    moreover have "[k..<min (k + Suc n) sz] = [k]"
      using True by (simp add: upt_conv_Cons)
    ultimately show ?thesis by simp
  next
    case False
    then have lt: "k + 1 < sz" using Suc.prems(2) by simp
    have ne: "(start + (k + 1)) mod sz \<noteq> start"
    proof
      assume ret: "(start + (k + 1)) mod sz = start"
      have "k + 1 = sz"
      proof (rule mod_back_to_start[of start "k + 1" sz])
        show "(start + (k + 1)) mod sz = start" by (rule ret)
        show "0 < k + 1" by simp
        show "k + 1 \<le> sz" using lt by simp
      qed
      with False show False by simp
    qed
    have "spec_probe_from sz start ?i (Suc n) =
        ?i # spec_probe_from sz start ((start + (k + 1)) mod sz) n"
      using ne nxt by simp
    also have "\<dots> = ?i # map (\<lambda>j. (start + j) mod sz) [k + 1..<min (k + 1 + n) sz]"
      using Suc.IH[OF Suc.prems(1) lt] by simp
    also have "\<dots> = map (\<lambda>j. (start + j) mod sz) [k..<min (k + Suc n) sz]"
      using lt by (simp add: upt_conv_Cons)
    finally show ?thesis .
  qed
qed

lemma spec_probe_seq_closed:
  assumes "0 < sz"
  shows "spec_probe_seq h sz =
     map (\<lambda>j. (h + j) mod sz) [0..<min (spec_max_probe sz + 1) sz]"
proof -
  have lt: "h mod sz < sz" using assms by simp
  have "spec_probe_from sz (h mod sz) ((h mod sz + 0) mod sz) (spec_max_probe sz + 1) =
      map (\<lambda>j. (h mod sz + j) mod sz) [0..<min (0 + (spec_max_probe sz + 1)) sz]"
    by (rule spec_probe_from_closed[OF lt assms])
  then show ?thesis
    by (simp add: spec_probe_seq_def mod_add_left_eq)
qed

subsection \<open>Entries under placement and re-insertion\<close>

lemma filter_update_length:
  "length (filter (\<lambda>v. v \<noteq> (0::nat)) (xs[p := w])) \<le> Suc (length (filter (\<lambda>v. v \<noteq> 0) xs))"
proof (induction xs arbitrary: p)
  case Nil
  then show ?case by simp
next
  case (Cons x xs)
  then show ?case by (cases p) (auto simp: le_SucI)
qed

lemma filter_update_mset:
  "p < length xs \<Longrightarrow> xs ! p = (0::nat) \<Longrightarrow> v \<noteq> 0 \<Longrightarrow>
     mset (filter (\<lambda>v. v \<noteq> 0) (xs[p := v])) = add_mset v (mset (filter (\<lambda>v. v \<noteq> 0) xs))"
proof (induction xs arbitrary: p)
  case Nil
  then show ?case by simp
next
  case (Cons x xs)
  then show ?case by (cases p) auto
qed

lemma release_shape:
  "jl_intset_release a p v = Inr a' \<Longrightarrow>
     el a' = el a \<and> length (slots a') = length (slots a) \<and> (\<exists>w. slots a' = (slots a)[p := w])"
  by (auto simp: jl_intset_release_def store_slot_def split: eltype.splits if_splits)

lemma release_exact:
  "jl_intset_release a p v = Inr a' \<Longrightarrow> jl_max_int a = Inr m \<Longrightarrow> v \<le> m \<Longrightarrow>
     slots a' = (slots a)[p := v]"
  by (auto simp: jl_intset_release_def store_slot_def jl_max_int_def split: eltype.splits if_splits)

lemma max_int_el: "el a' = el a \<Longrightarrow> jl_max_int a' = jl_max_int a"
  by (simp add: jl_max_int_def)

lemma numeric_el: "el a' = el a \<Longrightarrow> numeric a' = numeric a"
  by (simp add: numeric_def)

lemma insert_aux_shape:
  assumes "smallintset_insert_aux a hv v = Inr (ok, a')"
  shows "el a' = el a \<and> length (slots a') = length (slots a) \<and>
     length (entries a') \<le> Suc (length (entries a))"
proof (cases ok)
  case True
  with assms have "smallintset_insert_aux a hv v = Inr (True, a')" by simp
  from insert_aux_ok[OF this] obtain p where "jl_intset_release a p v = Inr a'"
    by blast
  from release_shape[OF this] obtain w where sh: "el a' = el a"
    "length (slots a') = length (slots a)" "slots a' = (slots a)[p := w]" by blast
  have "length (entries a') \<le> Suc (length (entries a))"
    unfolding entries_def sh(3) by (rule filter_update_length)
  with sh show ?thesis by simp
next
  case False
  with assms have "smallintset_insert_aux a hv v = Inr (False, a')" by simp
  then have "a' = a" by (rule insert_aux_fail_same)
  then show ?thesis by simp
qed

lemma insert_aux_ok_entries:
  assumes "smallintset_insert_aux a hv v = Inr (True, a')"
    and "jl_max_int a = Inr m" and "v \<le> m" and "v \<noteq> 0"
  shows "mset (entries a') = add_mset v (mset (entries a))"
proof -
  from insert_aux_ok[OF assms(1)] obtain p where rd: "jl_intref a p = Inr 0"
    and st: "jl_intset_release a p v = Inr a'" by blast
  from jl_intref_Inr[OF rd] have p: "p < length (slots a)" "slots a ! p = 0" by simp_all
  have upd: "slots a' = (slots a)[p := v]" by (rule release_exact[OF st assms(2,3)])
  show ?thesis
    unfolding entries_def upd by (rule filter_update_mset[OF p assms(4)])
qed

lemma reinsert_shape:
  "reinsert_entries hash data vs t = Inr (ok, t') \<Longrightarrow>
     el t' = el t \<and> length (slots t') = length (slots t) \<and>
     length (entries t') \<le> length (entries t) + length vs"
proof (induction vs arbitrary: t)
  case Nil
  then show ?case by simp
next
  case (Cons v vs)
  from Cons.prems obtain ok1 t1 where
    st: "smallintset_insert_aux t (hash (v - 1) data) v = Inr (ok1, t1)"
    by (auto split: sum.splits)
  note sh = insert_aux_shape[OF st]
  show ?case
  proof (cases ok1)
    case True
    with Cons.prems st have "reinsert_entries hash data vs t1 = Inr (ok, t')" by simp
    from Cons.IH[OF this] sh show ?thesis by simp
  next
    case False
    with Cons.prems st have "t' = t1" by simp
    with sh show ?thesis by simp
  qed
qed

lemma reinsert_ok_entries:
  "reinsert_entries hash data vs t = Inr (True, t') \<Longrightarrow> jl_max_int t = Inr m \<Longrightarrow>
     \<forall>v \<in> set vs. v \<noteq> 0 \<and> v \<le> m \<Longrightarrow>
     mset (entries t') = mset vs + mset (entries t)"
proof (induction vs arbitrary: t)
  case Nil
  then show ?case by simp
next
  case (Cons v vs)
  from Cons.prems(1) obtain ok1 t1 where
    st: "smallintset_insert_aux t (hash (v - 1) data) v = Inr (ok1, t1)"
    by (auto split: sum.splits)
  have ok1: ok1 using Cons.prems(1) st by (cases ok1) auto
  then have rest: "reinsert_entries hash data vs t1 = Inr (True, t')"
    using Cons.prems(1) st by simp
  have v: "v \<noteq> 0" "v \<le> m" using Cons.prems(3) by simp_all
  have st': "smallintset_insert_aux t (hash (v - 1) data) v = Inr (True, t1)"
    using st ok1 by simp
  have e1: "mset (entries t1) = add_mset v (mset (entries t))"
    by (rule insert_aux_ok_entries[OF st' Cons.prems(2) v(2,1)])
  have "el t1 = el t" using insert_aux_shape[OF st] by simp
  then have m1: "jl_max_int t1 = Inr m"
    using max_int_el[of t1 t] Cons.prems(2) by simp
  from Cons.IH[OF rest m1] Cons.prems(3) e1 show ?case by simp
qed

lemma reinsert_fail_full:
  "reinsert_entries hash data vs t = Inr (False, t') \<Longrightarrow> length (slots t) = 2 ^ k \<Longrightarrow>
     1 \<le> k \<Longrightarrow> min (Suc (max_probe (2 ^ k))) (2 ^ k) < length (entries t) + length vs"
proof (induction vs arbitrary: t)
  case Nil
  then show ?case by simp
next
  case (Cons v vs)
  from Cons.prems(1) obtain ok1 t1 where
    st: "smallintset_insert_aux t (hash (v - 1) data) v = Inr (ok1, t1)"
    by (auto split: sum.splits)
  note sh = insert_aux_shape[OF st]
  show ?case
  proof (cases ok1)
    case True
    with Cons.prems(1) st have rest: "reinsert_entries hash data vs t1 = Inr (False, t')" by simp
    have "length (slots t1) = 2 ^ k" using sh Cons.prems(2) by simp
    from Cons.IH[OF rest this Cons.prems(3)] sh show ?thesis by simp
  next
    case False
    with st have "smallintset_insert_aux t (hash (v - 1) data) v = Inr (False, t1)" by simp
    from insert_aux_fail_full[OF this Cons.prems(2,3)] show ?thesis by simp
  qed
qed

lemma rehash_fill_reinsert_gen:
  "numeric a \<Longrightarrow> set is \<subseteq> {..<length (slots a)} \<Longrightarrow>
     rehash_fill hash data a is newa =
       reinsert_entries hash data (filter (\<lambda>v. v \<noteq> 0) (map (\<lambda>i. slots a ! i) is)) newa"
proof (induction "is" arbitrary: newa)
  case Nil
  then show ?case by simp
next
  case (Cons i "is")
  have rd: "jl_intref a i = Inr (slots a ! i)"
    using Cons.prems by (simp add: jl_intref_numeric)
  show ?case using Cons.IH Cons.prems
    by (auto simp: rd split: sum.splits prod.splits)
qed

lemma rehash_fill_reinsert:
  assumes "numeric a \<or> slots a = []"
  shows "rehash_fill hash data a [0..<jl_array_nrows a] newa =
     reinsert_entries hash data (entries a) newa"
proof (cases "slots a = []")
  case True
  then show ?thesis by (simp add: jl_array_nrows_def entries_def)
next
  case False
  with assms have num: "numeric a" by simp
  have "rehash_fill hash data a [0..<length (slots a)] newa =
      reinsert_entries hash data
        (filter (\<lambda>v. v \<noteq> 0) (map (\<lambda>i. slots a ! i) [0..<length (slots a)])) newa"
    by (rule rehash_fill_reinsert_gen[OF num]) auto
  then show ?thesis
    unfolding jl_array_nrows_def entries_def by (simp only: map_nth)
qed

subsection \<open>What a rehash returns\<close>

lemma alloc_shape:
  assumes "jl_alloc_int_1d np len = Inr a"
  shows "slots a = replicate len 0 \<and> numeric a \<and> (\<exists>m. jl_max_int a = Inr m \<and> np < m)"
  using assms
  by (auto simp: jl_alloc_int_1d_def numeric_def jl_max_int_def split: if_splits)

lemma entries_replicate: "slots a = replicate len 0 \<Longrightarrow> entries a = []"
  by (simp add: entries_def)

lemma rehash_loop_result:
  assumes "rehash_loop hash data a np newsz = Some r"
  shows "\<forall>newa. r = Inr newa \<longrightarrow>
     (\<exists>k fresh. jl_alloc_int_1d np (doubled k newsz) = Inr fresh \<and>
        rehash_fill hash data a [0..<jl_array_nrows a] fresh = Inr (True, newa) \<and>
        (\<forall>j<k. \<exists>fj tj. jl_alloc_int_1d np (doubled j newsz) = Inr fj \<and>
             rehash_fill hash data a [0..<jl_array_nrows a] fj = Inr (False, tj)))"
proof (rule rehash_loop.raw_induct[where P = "\<lambda>hash data a np newsz r. \<forall>newa. r = Inr newa \<longrightarrow>
     (\<exists>k fresh. jl_alloc_int_1d np (doubled k newsz) = Inr fresh \<and>
        rehash_fill hash data a [0..<jl_array_nrows a] fresh = Inr (True, newa) \<and>
        (\<forall>j<k. \<exists>fj tj. jl_alloc_int_1d np (doubled j newsz) = Inr fj \<and>
             rehash_fill hash data a [0..<jl_array_nrows a] fj = Inr (False, tj)))", OF _ assms])
  fix f :: "(nat \<Rightarrow> 'a \<Rightarrow> nat) \<Rightarrow> 'a \<Rightarrow> jl_array \<Rightarrow> nat \<Rightarrow> nat \<Rightarrow> (fault + jl_array) option"
  fix hash :: "nat \<Rightarrow> 'a \<Rightarrow> nat" and data :: 'a and a np newsz y
  let ?Q = "\<lambda>newsz newa. (\<exists>k fresh. jl_alloc_int_1d np (doubled k newsz) = Inr fresh \<and>
        rehash_fill hash data a [0..<jl_array_nrows a] fresh = Inr (True, newa) \<and>
        (\<forall>j<k. \<exists>fj tj. jl_alloc_int_1d np (doubled j newsz) = Inr fj \<and>
             rehash_fill hash data a [0..<jl_array_nrows a] fj = Inr (False, tj)))"
  assume IH: "\<And>hash data a np newsz y. f hash data a np newsz = Some y \<Longrightarrow>
      \<forall>newa. y = Inr newa \<longrightarrow>
     (\<exists>k fresh. jl_alloc_int_1d np (doubled k newsz) = Inr fresh \<and>
        rehash_fill hash data a [0..<jl_array_nrows a] fresh = Inr (True, newa) \<and>
        (\<forall>j<k. \<exists>fj tj. jl_alloc_int_1d np (doubled j newsz) = Inr fj \<and>
             rehash_fill hash data a [0..<jl_array_nrows a] fj = Inr (False, tj)))"
  assume body: "(case jl_alloc_int_1d np newsz of
        Inl e \<Rightarrow> Some (Inl e)
      | Inr newa \<Rightarrow>
          (case rehash_fill hash data a [0..<jl_array_nrows a] newa of
             Inl e \<Rightarrow> Some (Inl e)
           | Inr (done, newa') \<Rightarrow>
               if done then Some (Inr newa')
               else f hash data a np ((2 * newsz) mod size_mod))) = Some y"
  show "\<forall>newa. y = Inr newa \<longrightarrow> ?Q newsz newa"
  proof (intro allI impI)
    fix newa assume y: "y = Inr newa"
    from body y obtain fresh where al: "jl_alloc_int_1d np newsz = Inr fresh"
      by (cases "jl_alloc_int_1d np newsz") auto
    from body y al obtain ok t where fl: "rehash_fill hash data a [0..<jl_array_nrows a] fresh = Inr (ok, t)"
      by (cases "rehash_fill hash data a [0..<jl_array_nrows a] fresh") auto
    show "?Q newsz newa"
    proof (cases ok)
      case True
      with body y al fl have "t = newa" by simp
      with al fl True have "jl_alloc_int_1d np (doubled 0 newsz) = Inr fresh \<and>
        rehash_fill hash data a [0..<jl_array_nrows a] fresh = Inr (True, newa) \<and>
        (\<forall>j<(0::nat). \<exists>fj tj. jl_alloc_int_1d np (doubled j newsz) = Inr fj \<and>
             rehash_fill hash data a [0..<jl_array_nrows a] fj = Inr (False, tj))"
        by simp
      then show ?thesis by blast
    next
      case False
      with body y al fl have "f hash data a np ((2 * newsz) mod size_mod) = Some (Inr newa)"
        by simp
      from IH[OF this] obtain k fr where
        k1: "jl_alloc_int_1d np (doubled k ((2 * newsz) mod size_mod)) = Inr fr"
        and k2: "rehash_fill hash data a [0..<jl_array_nrows a] fr = Inr (True, newa)"
        and k3: "\<forall>j<k. \<exists>fj tj. jl_alloc_int_1d np (doubled j ((2 * newsz) mod size_mod)) = Inr fj \<and>
             rehash_fill hash data a [0..<jl_array_nrows a] fj = Inr (False, tj)"
        by blast
      have k3': "\<forall>j<Suc k. \<exists>fj tj. jl_alloc_int_1d np (doubled j newsz) = Inr fj \<and>
             rehash_fill hash data a [0..<jl_array_nrows a] fj = Inr (False, tj)"
      proof (intro allI impI)
        fix j assume "j < Suc k"
        show "\<exists>fj tj. jl_alloc_int_1d np (doubled j newsz) = Inr fj \<and>
             rehash_fill hash data a [0..<jl_array_nrows a] fj = Inr (False, tj)"
        proof (cases j)
          case 0
          then show ?thesis using al fl False by auto
        next
          case (Suc j')
          then have "j' < k" using \<open>j < Suc k\<close> by simp
          with k3 Suc show ?thesis by simp
        qed
      qed
      have "jl_alloc_int_1d np (doubled (Suc k) newsz) = Inr fr" using k1 by simp
      with k2 k3' show ?thesis by blast
    qed
  qed
qed

lemma rehash_np_readable:
  assumes "rehash_np a [0..<jl_array_nrows a] np = Inr np'"
  shows "numeric a \<or> slots a = []"
proof (cases "slots a")
  case Nil
  then show ?thesis by simp
next
  case (Cons x xs)
  then have "0 < jl_array_nrows a" by (simp add: jl_array_nrows_def)
  then have "[0..<jl_array_nrows a] = 0 # [Suc 0..<jl_array_nrows a]"
    by (rule upt_conv_Cons)
  with assms have "rehash_np a (0 # [Suc 0..<jl_array_nrows a]) np = Inr np'" by simp
  then obtain v where "jl_intref a 0 = Inr v"
    by (auto split: sum.splits)
  then show ?thesis using jl_intref_Inr by blast
qed

lemma rehash_content:
  assumes "smallintset_rehash hash data a newsz np = Some (Inr newa)"
  shows "\<exists>k np' fresh. rehash_np a [0..<jl_array_nrows a] np = Inr np' \<and>
      jl_alloc_int_1d np' (doubled k newsz) = Inr fresh \<and>
      slots fresh = replicate (doubled k newsz) 0 \<and>
      reinsert_entries hash data (entries a) fresh = Inr (True, newa) \<and>
      (\<forall>j<k. \<exists>fj tj. jl_alloc_int_1d np' (doubled j newsz) = Inr fj \<and>
           reinsert_entries hash data (entries a) fj = Inr (False, tj)) \<and>
      jl_array_nrows newa = doubled k newsz \<and>
      mset (entries newa) = mset (entries a)"
proof -
  from assms obtain np' where np: "rehash_np a [0..<jl_array_nrows a] np = Inr np'"
    and lp: "rehash_loop hash data a np' newsz = Some (Inr newa)"
    by (auto simp: smallintset_rehash_def split: sum.splits)
  have rd: "numeric a \<or> slots a = []" by (rule rehash_np_readable[OF np])
  note fill = rehash_fill_reinsert[OF rd]
  from rehash_loop_result[OF lp] obtain k fresh where
    al: "jl_alloc_int_1d np' (doubled k newsz) = Inr fresh"
    and ok: "reinsert_entries hash data (entries a) fresh = Inr (True, newa)"
    and fails: "\<forall>j<k. \<exists>fj tj. jl_alloc_int_1d np' (doubled j newsz) = Inr fj \<and>
           reinsert_entries hash data (entries a) fj = Inr (False, tj)"
    by (auto simp: fill)
  from alloc_shape[OF al] obtain m where fr: "slots fresh = replicate (doubled k newsz) 0"
    and mx: "jl_max_int fresh = Inr m" "np' < m" by blast
  have bound: "\<forall>v \<in> set (entries a). v \<noteq> 0 \<and> v \<le> m"
  proof
    fix v assume "v \<in> set (entries a)"
    then have nz: "v \<noteq> 0" and "v \<in> set (slots a)" by (auto simp: entries_def)
    then obtain i where "i < length (slots a)" "v = slots a ! i"
      by (auto simp: in_set_conv_nth)
    with rehash_np_max[OF np] have "v \<le> np'" by (auto simp: jl_array_nrows_def)
    with nz mx(2) show "v \<noteq> 0 \<and> v \<le> m" by simp
  qed
  have ms: "mset (entries newa) = mset (entries a)"
    using reinsert_ok_entries[OF ok mx(1) bound] entries_replicate[OF fr] by simp
  have cap: "jl_array_nrows newa = doubled k newsz"
    using reinsert_shape[OF ok] fr by (simp add: jl_array_nrows_def)
  show ?thesis using np al fr ok fails cap ms by blast
qed

subsection \<open>The retry loop of rehash ends\<close>

lemma pow2_lt_size_mod: "j < 64 \<Longrightarrow> (2::nat) ^ j < size_mod"
  unfolding size_mod_def by (rule power_strict_increasing) simp_all

lemma pow2_mod_size: "j < 64 \<Longrightarrow> (2::nat) ^ j mod size_mod = 2 ^ j"
  by (simp add: pow2_lt_size_mod)

lemma double_pow2: "j < 63 \<Longrightarrow> (2 * (2::nat) ^ j) mod size_mod = 2 ^ Suc j"
  using pow2_mod_size[of "Suc j"] by simp

lemma probe_bound_large:
  assumes "62 \<le> i" and "i \<le> 63"
  shows "2 ^ 56 < min (Suc (max_probe (2 ^ i))) ((2::nat) ^ i)"
proof -
  from assms have "i = 62 \<or> i = 63" by linarith
  then show ?thesis
    by (auto simp: max_probe_def drop_bit_eq_div)
qed


lemma rehash_attempt:
  assumes rd: "numeric a \<or> slots a = []"
  obtains (fault) e where "rehash_loop hash data a np sz = Some (Inl e)"
  | (finished) newa where "rehash_loop hash data a np sz = Some (Inr newa)"
      "jl_array_nrows newa = sz" "length (entries newa) \<le> length (entries a)"
  | (retry) fresh t where "jl_alloc_int_1d np sz = Inr fresh"
      "reinsert_entries hash data (entries a) fresh = Inr (False, t)"
      "rehash_loop hash data a np sz = rehash_loop hash data a np ((2 * sz) mod size_mod)"
proof (cases "jl_alloc_int_1d np sz")
  case (Inl e)
  then have "rehash_loop hash data a np sz = Some (Inl e)"
    by (subst rehash_loop.simps) simp
  then show ?thesis by (rule fault)
next
  case (Inr fresh)
  note fill = rehash_fill_reinsert[OF rd, of hash data fresh]
  from alloc_shape[OF Inr] have fr: "slots fresh = replicate sz 0" by simp
  show ?thesis
  proof (cases "reinsert_entries hash data (entries a) fresh")
    case (Inl e)
    then have "rehash_loop hash data a np sz = Some (Inl e)"
      using Inr fill by (subst rehash_loop.simps) simp
    then show ?thesis by (rule fault)
  next
    case res: (Inr p)
    obtain ok t where p: "p = (ok, t)" by (cases p)
    show ?thesis
    proof (cases ok)
      case True
      have r: "rehash_loop hash data a np sz = Some (Inr t)"
        using Inr fill res p True by (subst rehash_loop.simps) simp
      have sh: "length (slots t) = length (slots fresh)"
        "length (entries t) \<le> length (entries fresh) + length (entries a)"
        using reinsert_shape[of hash data "entries a" fresh ok t] res p by simp_all
      have c: "jl_array_nrows t = sz" using sh(1) fr by (simp add: jl_array_nrows_def)
      have l: "length (entries t) \<le> length (entries a)"
        using sh(2) entries_replicate[OF fr] by simp
      show ?thesis by (rule finished[OF r c l])
    next
      case False
      have r: "rehash_loop hash data a np sz = rehash_loop hash data a np ((2 * sz) mod size_mod)"
        using Inr fill res p False by (subst rehash_loop.simps) simp
      show ?thesis using Inr res p False r by (intro retry[of fresh t]) simp_all
    qed
  qed
qed

lemma rehash_loop_terminates:
  assumes rd: "numeric a \<or> slots a = []" and n: "length (entries a) \<le> 2 ^ 56"
    and i: "i \<le> 63"
  shows "\<exists>r. rehash_loop hash data a np (2 ^ i) = Some r \<and>
     (\<forall>newa. r = Inr newa \<longrightarrow>
        (\<exists>i'. i \<le> i' \<and> i' \<le> 63 \<and> jl_array_nrows newa = 2 ^ i' \<and>
           length (entries newa) \<le> length (entries a)))"
  using i
proof (induction rule: inc_induct)
  case base
  show ?case
  proof (rule rehash_attempt[OF rd, of hash data np "2 ^ 63"], goal_cases)
    case (1 e)
    then show ?thesis by simp
  next
    case (2 newa)
    then show ?thesis by auto
  next
    case retry: (3 fresh t)
    from alloc_shape[OF retry(1)] have "length (slots fresh) = 2 ^ 63" by simp
    from reinsert_fail_full[OF retry(2) this] entries_replicate[of fresh "2 ^ 63"] alloc_shape[OF retry(1)]
    have "min (Suc (max_probe (2 ^ 63))) ((2::nat) ^ 63) < length (entries a)" by simp
    with probe_bound_large[of 63] n have False by linarith
    then show ?thesis ..
  qed
next
  case (step j)
  show ?case
  proof (rule rehash_attempt[OF rd, of hash data np "2 ^ j"], goal_cases)
    case (1 e)
    then show ?thesis by simp
  next
    case (2 newa)
    then show ?thesis using step.hyps by auto
  next
    case retry: (3 fresh t)
    have "rehash_loop hash data a np (2 ^ j) = rehash_loop hash data a np (2 ^ Suc j)"
      using retry(3) double_pow2[OF step.hyps(2)] by simp
    with step.IH show ?thesis by (metis Suc_leD)
  qed
qed

lemma rehash_terminates:
  assumes n: "length (entries a) \<le> 2 ^ 56" and i: "i \<le> 63"
  shows "\<exists>r. smallintset_rehash hash data a (2 ^ i) np = Some r \<and>
     (\<forall>newa. r = Inr newa \<longrightarrow>
        (\<exists>i'. i \<le> i' \<and> i' \<le> 63 \<and> jl_array_nrows newa = 2 ^ i' \<and>
           length (entries newa) \<le> length (entries a)))"
proof (cases "rehash_np a [0..<jl_array_nrows a] np")
  case (Inl e)
  then show ?thesis by (simp add: smallintset_rehash_def)
next
  case (Inr np')
  have rd: "numeric a \<or> slots a = []" by (rule rehash_np_readable[OF Inr])
  from rehash_loop_terminates[OF rd n i, of hash data np'] show ?thesis
    by (simp add: smallintset_rehash_def Inr)
qed

lemma rehash_empty:
  assumes "slots a = []"
  shows "smallintset_rehash hash data a newsz np =
     Some (case jl_alloc_int_1d np newsz of Inl e \<Rightarrow> Inl e | Inr fresh \<Rightarrow> Inr fresh)"
  using assms
  by (subst smallintset_rehash_def, simp add: jl_array_nrows_def, subst rehash_loop.simps)
    (simp add: jl_array_nrows_def split: sum.splits)

lemma rehash_no_entries_terminates:
  assumes "entries a = []"
  shows "\<exists>r. smallintset_rehash hash data a newsz np = Some r"
proof (cases "rehash_np a [0..<jl_array_nrows a] np")
  case (Inl e)
  then show ?thesis by (simp add: smallintset_rehash_def)
next
  case (Inr np')
  have rd: "numeric a \<or> slots a = []" by (rule rehash_np_readable[OF Inr])
  have "\<exists>r. rehash_loop hash data a np' newsz = Some r"
  proof (rule rehash_attempt[OF rd, of hash data np' newsz], goal_cases)
    case (1 e)
    then show ?case by simp
  next
    case (2 newa)
    then show ?case by simp
  next
    case (3 fresh t)
    from 3(2) assms have False by simp
    then show ?case ..
  qed
  then show ?thesis by (simp add: smallintset_rehash_def Inr)
qed

subsection \<open>The retry loop of insert ends\<close>

lemma grow_pow2:
  assumes "n_inline = 2 ^ m" and "m \<le> 63" and "j \<le> 61"
  shows "\<exists>i'. j < i' \<and> i' \<le> 63 \<and> grow_newsz n_inline (2 ^ j) = 2 ^ i'"
proof (cases "(2::nat) ^ j < n_inline")
  case True
  then have "j < m" using assms(1) by simp
  then show ?thesis using True assms by (auto simp: grow_newsz_def)
next
  case False
  have d: "(2 * (2::nat) ^ j) mod size_mod = 2 ^ Suc j"
    using assms(3) by (intro double_pow2) simp
  have q: "(4 * (2::nat) ^ j) mod size_mod = 2 ^ Suc (Suc j)"
    using pow2_mod_size[of "Suc (Suc j)"] assms(3) by simp
  show ?thesis
  proof (cases "(2::nat) ^ 19 \<le> 2 ^ j \<or> (2::nat) ^ j \<le> 2 ^ 8")
    case True
    then have "grow_newsz n_inline (2 ^ j) = 2 ^ Suc j"
      using False d by (simp add: grow_newsz_def)
    then show ?thesis using assms(3) by (intro exI[of _ "Suc j"]) simp
  next
    case F2: False
    then have "grow_newsz n_inline (2 ^ j) = 2 ^ Suc (Suc j)"
      using False q by (simp add: grow_newsz_def)
    then show ?thesis using assms(3) by (intro exI[of _ "Suc (Suc j)"]) simp
  qed
qed

lemma insert_attempt:
  obtains (fault) e where "insert_retry n_inline hash val data a = Some (Inl e)"
  | (placed) a' where "insert_retry n_inline hash val data a = Some (Inr a')"
      "smallintset_insert_aux a (hash val data) ((val + 1) mod size_mod) = Inr (True, a')"
  | (retry) "smallintset_insert_aux a (hash val data) ((val + 1) mod size_mod) = Inr (False, a)"
      "insert_retry n_inline hash val data a =
         Option.bind (smallintset_rehash hash data a (grow_newsz n_inline (jl_array_nrows a)) 0)
           (\<lambda>r. case r of Inl e \<Rightarrow> Some (Inl e)
               | Inr a'' \<Rightarrow> insert_retry n_inline hash val data a'')"
proof (cases "smallintset_insert_aux a (hash val data) ((val + 1) mod size_mod)")
  case (Inl e)
  then have "insert_retry n_inline hash val data a = Some (Inl e)"
    by (subst insert_retry.simps) simp
  then show ?thesis by (rule fault)
next
  case (Inr p)
  obtain ok a' where p: "p = (ok, a')" by (cases p)
  show ?thesis
  proof (cases ok)
    case True
    have "insert_retry n_inline hash val data a = Some (Inr a')"
      using Inr p True by (subst insert_retry.simps) simp
    then show ?thesis using Inr p True by (intro placed[of a']) simp_all
  next
    case False
    have st: "smallintset_insert_aux a (hash val data) ((val + 1) mod size_mod) = Inr (False, a')"
      using Inr p False by simp
    have same: "a' = a" by (rule insert_aux_fail_same[OF st])
    have "insert_retry n_inline hash val data a =
         Option.bind (smallintset_rehash hash data a (grow_newsz n_inline (jl_array_nrows a)) 0)
           (\<lambda>r. case r of Inl e \<Rightarrow> Some (Inl e)
               | Inr a'' \<Rightarrow> insert_retry n_inline hash val data a'')"
      using st same by (subst insert_retry.simps) simp
    then show ?thesis using st same by (intro retry) simp_all
  qed
qed

lemma bind_result:
  assumes "m = Some r"
    and "\<And>e. r = Inl e \<Longrightarrow> \<exists>y. Some (Inl e) = Some (y :: fault + jl_array)"
    and "\<And>a''. r = Inr a'' \<Longrightarrow> \<exists>y. g a'' = Some y"
  shows "\<exists>y. Option.bind m (\<lambda>r. case r of Inl e \<Rightarrow> Some (Inl e) | Inr a'' \<Rightarrow> g a'') = Some y"
  using assms by (cases r) auto

lemma insert_retry_terminates_pow2:
  assumes N: "n_inline = 2 ^ m" "m \<le> 63" and i: "i \<le> 63"
  shows "\<forall>j a. i \<le> j \<and> j \<le> 63 \<and> jl_array_nrows a = 2 ^ j \<and> length (entries a) \<le> 2 ^ 56 \<longrightarrow>
     (\<exists>r. insert_retry n_inline hash val data a = Some r)"
  using i
proof (induction rule: inc_induct)
  case base
  show ?case
  proof (intro allI impI)
    fix j a
    assume h: "63 \<le> j \<and> j \<le> 63 \<and> jl_array_nrows a = 2 ^ j \<and> length (entries a) \<le> 2 ^ 56"
    then have j: "j = 63" by simp
    show "\<exists>r. insert_retry n_inline hash val data a = Some r"
    proof (rule insert_attempt[of n_inline hash val data a], goal_cases)
      case (1 e)
      then show ?case by simp
    next
      case (2 a')
      then show ?case by simp
    next
      case 3
      have len: "length (slots a) = 2 ^ 63" using h j by (simp add: jl_array_nrows_def)
      have n: "length (entries a) \<le> 2 ^ 56" using h by blast
      have f: "min (Suc (max_probe (2 ^ 63))) (2 ^ 63) \<le> length (entries a)"
        by (rule insert_aux_fail_full[OF 3(1) len]) simp
      have b: "2 ^ 56 < min (Suc (max_probe (2 ^ 63))) ((2::nat) ^ 63)"
        by (rule probe_bound_large) simp_all
      from f b n have False by linarith
      then show ?case ..
    qed
  qed
next
  case (step k)
  show ?case
  proof (intro allI impI)
    fix j a
    assume h: "k \<le> j \<and> j \<le> 63 \<and> jl_array_nrows a = 2 ^ j \<and> length (entries a) \<le> 2 ^ 56"
    show "\<exists>r. insert_retry n_inline hash val data a = Some r"
    proof (rule insert_attempt[of n_inline hash val data a], goal_cases)
      case (1 e)
      then show ?case by simp
    next
      case (2 a')
      then show ?case by simp
    next
      case 3
      have len: "length (slots a) = 2 ^ j" using h by (simp add: jl_array_nrows_def)
      have j61: "j \<le> 61"
      proof (rule ccontr)
        assume "\<not> j \<le> 61"
        then have big: "62 \<le> j" "1 \<le> j" by simp_all
        have n: "length (entries a) \<le> 2 ^ 56" and j63: "j \<le> 63" using h by blast+
        have f: "min (Suc (max_probe (2 ^ j))) (2 ^ j) \<le> length (entries a)"
          by (rule insert_aux_fail_full[OF 3(1) len big(2)])
        have b: "2 ^ 56 < min (Suc (max_probe (2 ^ j))) ((2::nat) ^ j)"
          by (rule probe_bound_large[OF big(1) j63])
        from f b n show False by linarith
      qed
      from grow_pow2[OF N j61] obtain i' where i': "j < i'" "i' \<le> 63"
        "grow_newsz n_inline (2 ^ j) = 2 ^ i'" by blast
      from rehash_terminates[of a i' hash data 0] h i'(2)
      obtain r where r: "smallintset_rehash hash data a (2 ^ i') 0 = Some r"
        and rr: "\<forall>newa. r = Inr newa \<longrightarrow>
        (\<exists>i''. i' \<le> i'' \<and> i'' \<le> 63 \<and> jl_array_nrows newa = 2 ^ i'' \<and>
           length (entries newa) \<le> length (entries a))" by blast
      have "\<exists>y. Option.bind (smallintset_rehash hash data a (2 ^ i') 0)
           (\<lambda>r. case r of Inl e \<Rightarrow> Some (Inl e)
               | Inr a'' \<Rightarrow> insert_retry n_inline hash val data a'') = Some y"
      proof (rule bind_result[OF r])
        fix e show "\<exists>y. Some (Inl e) = Some (y :: fault + jl_array)" by simp
      next
        fix a'' assume "r = Inr a''"
        with rr obtain i'' where "i' \<le> i''" "i'' \<le> 63" "jl_array_nrows a'' = 2 ^ i''"
           "length (entries a'') \<le> length (entries a)" by blast
        then have "Suc k \<le> i'' \<and> i'' \<le> 63 \<and> jl_array_nrows a'' = 2 ^ i'' \<and>
            length (entries a'') \<le> 2 ^ 56"
          using h i'(1) by simp
        with step.IH show "\<exists>y. insert_retry n_inline hash val data a'' = Some y" by blast
      qed
      then show ?case using 3(2) h i'(3) by simp
    qed
  qed
qed

lemma insert_retry_terminates:
  assumes N: "n_inline = 2 ^ m" "1 \<le> m" "m \<le> 63"
    and cap: "jl_array_nrows a = 0 \<or> (\<exists>i\<le>63. jl_array_nrows a = 2 ^ i)"
    and n: "length (entries a) \<le> 2 ^ 56"
  shows "\<exists>r. insert_retry n_inline hash val data a = Some r"
  using cap
proof
  assume "\<exists>i\<le>63. jl_array_nrows a = 2 ^ i"
  then obtain i where i: "i \<le> 63" "jl_array_nrows a = 2 ^ i" by blast
  from insert_retry_terminates_pow2[OF N(1,3) i(1), of hash val data] i n
  show ?thesis by blast
next
  assume z: "jl_array_nrows a = 0"
  then have e: "slots a = []" by (simp add: jl_array_nrows_def)
  show ?thesis
  proof (rule insert_attempt[of n_inline hash val data a], goal_cases)
    case (1 e)
    then show ?case by simp
  next
    case (2 a')
    then show ?case by simp
  next
    case 3
    let ?fresh = "\<lparr>el = UInt8, slots = replicate n_inline 0\<rparr>"
    have g: "grow_newsz n_inline (jl_array_nrows a) = n_inline"
      using z N(1) by (simp add: grow_newsz_def)
    have r: "smallintset_rehash hash data a n_inline 0 = Some (Inr ?fresh)"
      by (simp add: rehash_empty[OF e] jl_alloc_int_1d_def)
    have "jl_array_nrows ?fresh = 2 ^ m" "length (entries ?fresh) \<le> 2 ^ 56"
      using N(1) by (simp_all add: jl_array_nrows_def entries_def)
    with insert_retry_terminates_pow2[OF N(1,3) N(3), of hash val data] N(3)
    have "\<exists>r. insert_retry n_inline hash val data ?fresh = Some r" by blast
    then show ?case using 3(2) g r by simp
  qed
qed

lemma insert_terminates:
  assumes N: "n_inline = 2 ^ m" "1 \<le> m" "m \<le> 63"
    and cap: "jl_array_nrows a = 0 \<or> (\<exists>i\<le>63. jl_array_nrows a = 2 ^ i)"
    and n: "length (entries a) \<le> 2 ^ 56"
  shows "\<exists>r. jl_smallintset_insert n_inline hash val data a = Some r"
proof (cases "jl_max_int a")
  case (Inl e)
  then show ?thesis by (simp add: jl_smallintset_insert_def)
next
  case (Inr mx)
  note retry = insert_retry_terminates[OF N]
  show ?thesis
  proof (cases "(val + 1) mod size_mod > mx")
    case False
    with Inr retry[OF cap n, of hash val data] show ?thesis
      by (simp add: jl_smallintset_insert_def)
  next
    case True
    let ?np = "(val + 1) mod size_mod"
    have "\<exists>r. smallintset_rehash hash data a (jl_array_nrows a) ?np = Some r \<and>
        (\<forall>a'. r = Inr a' \<longrightarrow>
           (jl_array_nrows a' = 0 \<or> (\<exists>i\<le>63. jl_array_nrows a' = 2 ^ i)) \<and>
           length (entries a') \<le> 2 ^ 56)"
      using cap
    proof
      assume z: "jl_array_nrows a = 0"
      then have e: "slots a = []" by (simp add: jl_array_nrows_def)
      show ?thesis
      proof (cases "jl_alloc_int_1d ?np 0")
        case (Inl e')
        have "smallintset_rehash hash data a (jl_array_nrows a) ?np = Some (Inl e')"
          unfolding z by (simp only: rehash_empty[OF e] Inl sum.case)
        then show ?thesis by simp
      next
        case (Inr fresh)
        from alloc_shape[OF Inr] have fr: "slots fresh = []" by simp
        have "smallintset_rehash hash data a (jl_array_nrows a) ?np = Some (Inr fresh)"
          unfolding z by (simp only: rehash_empty[OF e] Inr sum.case)
        then show ?thesis using fr by (simp add: jl_array_nrows_def entries_def)
      qed
    next
      assume "\<exists>i\<le>63. jl_array_nrows a = 2 ^ i"
      then obtain i where i: "i \<le> 63" "jl_array_nrows a = 2 ^ i" by blast
      from rehash_terminates[OF n i(1), of hash data ?np]
      obtain r where r: "smallintset_rehash hash data a (2 ^ i) ?np = Some r"
        and rr: "\<forall>newa. r = Inr newa \<longrightarrow>
          (\<exists>i'. i \<le> i' \<and> i' \<le> 63 \<and> jl_array_nrows newa = 2 ^ i' \<and>
             length (entries newa) \<le> length (entries a))" by blast
      have "\<forall>a'. r = Inr a' \<longrightarrow>
           (jl_array_nrows a' = 0 \<or> (\<exists>i\<le>63. jl_array_nrows a' = 2 ^ i)) \<and>
           length (entries a') \<le> 2 ^ 56"
      proof (intro allI impI)
        fix a' assume "r = Inr a'"
        with rr obtain i' where "i' \<le> 63" "jl_array_nrows a' = 2 ^ i'"
          "length (entries a') \<le> length (entries a)" by blast
        with n show "(jl_array_nrows a' = 0 \<or> (\<exists>i\<le>63. jl_array_nrows a' = 2 ^ i)) \<and>
           length (entries a') \<le> 2 ^ 56"
          by (intro conjI disjI2 exI[of _ i']) simp_all
      qed
      with r show ?thesis unfolding i(2) by blast
    qed
    then obtain r where r: "smallintset_rehash hash data a (jl_array_nrows a) ?np = Some r"
      and rr: "\<forall>a'. r = Inr a' \<longrightarrow>
           (jl_array_nrows a' = 0 \<or> (\<exists>i\<le>63. jl_array_nrows a' = 2 ^ i)) \<and>
           length (entries a') \<le> 2 ^ 56" by blast
    have "\<exists>y. Option.bind (smallintset_rehash hash data a (jl_array_nrows a) ?np)
           (\<lambda>r. case r of Inl e \<Rightarrow> Some (Inl e)
               | Inr a' \<Rightarrow> insert_retry n_inline hash val data a') = Some y"
    proof (rule bind_result[OF r])
      fix e show "\<exists>y. Some (Inl e) = Some (y :: fault + jl_array)" by simp
    next
      fix a' assume "r = Inr a'"
      with rr retry[of a' hash val data]
      show "\<exists>y. insert_retry n_inline hash val data a' = Some y" by blast
    qed
    then show ?thesis using Inr True by (simp add: jl_smallintset_insert_def)
  qed
qed

subsection \<open>No fault on well-formed tables\<close>

lemma and_le_mask: "(x::nat) AND y \<le> y"
proof -
  have "int (x AND y) = int x AND int y" by (simp add: of_nat_and_eq)
  also have "\<dots> \<le> int y" by (rule AND_upper2) simp
  finally show ?thesis by simp
qed

lemma h2index_lt: "0 < sz \<Longrightarrow> (x::nat) AND (sz - 1) < sz"
  using and_le_mask[of x "sz - 1"] by simp

lemma release_numeric:
  "numeric a \<Longrightarrow> i < length (slots a) \<Longrightarrow> \<exists>a'. jl_intset_release a i v = Inr a'"
  by (auto simp: jl_intset_release_def store_slot_def numeric_def)

lemma release_value:
  assumes "jl_intset_release a p v = Inr a'"
  shows "\<exists>w. w \<le> v \<and> slots a' = (slots a)[p := w]"
proof -
  have "\<exists>n. slots a' = (slots a)[p := v mod n]"
    using assms
    by (cases "el a") (auto simp: jl_intset_release_def store_slot_def split: if_splits)
  then obtain n where "slots a' = (slots a)[p := v mod n]" by blast
  moreover have "v mod n \<le> v" by simp
  ultimately show ?thesis by blast
qed

lemma insert_loop_no_fault:
  "numeric a \<Longrightarrow> length (slots a) = sz \<Longrightarrow> 0 < sz \<Longrightarrow> index < sz \<Longrightarrow>
     insert_loop a v sz mp orig index it \<noteq> Inl e"
proof (induction a v sz mp orig index it rule: insert_loop.induct)
  case (1 a val1 sz maxprobe orig index iter)
  have rd: "jl_intref a index = Inr (slots a ! index)"
    using "1.prems" by (simp add: jl_intref_numeric)
  show ?case
  proof (cases "slots a ! index = 0")
    case True
    from release_numeric[of a index val1] "1.prems" obtain a' where
      "jl_intset_release a index val1 = Inr a'" by auto
    then show ?thesis using True
      by (subst insert_loop.simps) (simp add: rd)
  next
    case False
    have lt: "(index + 1) AND (sz - 1) < sz" using "1.prems"(3) by (rule h2index_lt)
    show ?thesis
    proof (cases "iter + 1 \<le> maxprobe \<and> (index + 1) AND (sz - 1) \<noteq> orig")
      case True
      have "insert_loop a val1 sz maxprobe orig ((index + 1) AND (sz - 1)) (iter + 1) \<noteq> Inl e"
        using "1.IH"[OF rd False refl refl True "1.prems"(1,2,3) lt] .
      moreover have "insert_loop a val1 sz maxprobe orig index iter =
          insert_loop a val1 sz maxprobe orig ((index + 1) AND (sz - 1)) (iter + 1)"
        using False True by (subst insert_loop.simps) (simp add: rd Let_def)
      ultimately show ?thesis by simp
    next
      case F: False
      have "insert_loop a val1 sz maxprobe orig index iter = Inr (False, a)"
        using False F by (subst insert_loop.simps) (auto simp: rd Let_def)
      then show ?thesis by simp
    qed
  qed
qed

lemma insert_aux_no_fault:
  assumes "numeric a"
  shows "smallintset_insert_aux a hv v \<noteq> Inl e"
proof (cases "jl_array_nrows a \<le> 1")
  case True
  then show ?thesis by (simp add: smallintset_insert_aux_def)
next
  case False
  then have pos: "0 < length (slots a)" by (cases "slots a") (simp_all add: jl_array_nrows_def)
  have lt: "h2index hv (length (slots a)) < length (slots a)"
    unfolding h2index_def using pos by (rule h2index_lt)
  from insert_loop_no_fault[OF assms refl pos lt] False show ?thesis
    by (simp add: smallintset_insert_aux_def jl_array_nrows_def Let_def)
qed

lemma reinsert_no_fault:
  "numeric t \<Longrightarrow> reinsert_entries hash data vs t \<noteq> Inl e"
proof (induction vs arbitrary: t)
  case Nil
  then show ?case by simp
next
  case (Cons v vs)
  from insert_aux_no_fault[OF Cons.prems, of "hash (v - 1) data" v] obtain ok t1 where
    st: "smallintset_insert_aux t (hash (v - 1) data) v = Inr (ok, t1)"
    by (cases "smallintset_insert_aux t (hash (v - 1) data) v") auto
  have "el t1 = el t" using insert_aux_shape[OF st] by simp
  then have "numeric t1" using Cons.prems numeric_el[of t1 t] by simp
  from Cons.IH[OF this] st show ?case by auto
qed

lemma rehash_np_numeric:
  "numeric a \<Longrightarrow> set is \<subseteq> {..<length (slots a)} \<Longrightarrow> \<exists>np'. rehash_np a is np = Inr np'"
proof (induction "is" arbitrary: np)
  case Nil
  then show ?case by simp
next
  case (Cons i "is")
  then show ?case by (simp add: jl_intref_numeric)
qed

lemma rehash_np_ok:
  assumes "numeric a \<or> slots a = []"
  shows "\<exists>np'. rehash_np a [0..<jl_array_nrows a] np = Inr np'"
proof (cases "slots a = []")
  case True
  then show ?thesis by (simp add: jl_array_nrows_def)
next
  case False
  with assms have "numeric a" by simp
  then show ?thesis unfolding jl_array_nrows_def by (rule rehash_np_numeric) auto
qed

lemma rehash_loop_no_fault:
  assumes "rehash_loop hash data a np newsz = Some r"
  shows "np < 2147483647 \<and> (numeric a \<or> slots a = []) \<longrightarrow> (\<forall>e. r \<noteq> Inl e)"
proof (rule rehash_loop.raw_induct[where P = "\<lambda>hash data a np newsz r.
     np < 2147483647 \<and> (numeric a \<or> slots a = []) \<longrightarrow> (\<forall>e. r \<noteq> Inl e)", OF _ assms])
  fix f :: "(nat \<Rightarrow> 'a \<Rightarrow> nat) \<Rightarrow> 'a \<Rightarrow> jl_array \<Rightarrow> nat \<Rightarrow> nat \<Rightarrow> (fault + jl_array) option"
  fix hash :: "nat \<Rightarrow> 'a \<Rightarrow> nat" and data :: 'a and a np newsz y
  assume IH: "\<And>hash data a np newsz y. f hash data a np newsz = Some y \<Longrightarrow>
      np < 2147483647 \<and> (numeric a \<or> slots a = []) \<longrightarrow> (\<forall>e. y \<noteq> Inl e)"
  assume body: "(case jl_alloc_int_1d np newsz of
        Inl e \<Rightarrow> Some (Inl e)
      | Inr newa \<Rightarrow>
          (case rehash_fill hash data a [0..<jl_array_nrows a] newa of
             Inl e \<Rightarrow> Some (Inl e)
           | Inr (done, newa') \<Rightarrow>
               if done then Some (Inr newa')
               else f hash data a np ((2 * newsz) mod size_mod))) = Some y"
  show "np < 2147483647 \<and> (numeric a \<or> slots a = []) \<longrightarrow> (\<forall>e. y \<noteq> Inl e)"
  proof (intro impI allI)
    fix e
    assume h: "np < 2147483647 \<and> (numeric a \<or> slots a = [])"
    then obtain fresh where al: "jl_alloc_int_1d np newsz = Inr fresh"
      by (cases "jl_alloc_int_1d np newsz") (auto simp: alloc_fault_iff)
    from alloc_shape[OF al] have nf: "numeric fresh" by simp
    have fill: "rehash_fill hash data a [0..<jl_array_nrows a] fresh =
        reinsert_entries hash data (entries a) fresh"
      using h by (intro rehash_fill_reinsert) simp
    from reinsert_no_fault[OF nf, of hash data "entries a"] obtain ok t where
      res: "reinsert_entries hash data (entries a) fresh = Inr (ok, t)"
      by (cases "reinsert_entries hash data (entries a) fresh") auto
    show "y \<noteq> Inl e"
    proof (cases ok)
      case True
      with body al fill res show ?thesis by auto
    next
      case False
      with body al fill res have "f hash data a np ((2 * newsz) mod size_mod) = Some y"
        by simp
      from IH[OF this] h show ?thesis by simp
    qed
  qed
qed

lemma rehash_no_fault:
  assumes r: "smallintset_rehash hash data a newsz np = Some r"
    and rd: "numeric a \<or> slots a = []"
    and np: "np < 2147483647"
    and dom: "\<forall>v \<in> set (slots a). v < 2147483647"
  shows "\<exists>newa. r = Inr newa \<and> numeric newa \<and> (\<forall>v \<in> set (slots newa). v < 2147483647)"
proof -
  from rehash_np_ok[OF rd] obtain np' where n: "rehash_np a [0..<jl_array_nrows a] np = Inr np'"
    by blast
  have small: "np' < 2147483647"
    using rehash_np_max[OF n] np dom by (auto simp: jl_array_nrows_def)
  have lp: "rehash_loop hash data a np' newsz = Some r"
    using r by (simp add: smallintset_rehash_def n)
  from rehash_loop_no_fault[OF lp] small rd obtain newa where ra: "r = Inr newa"
    by (cases r) auto
  from rehash_content[of hash data a newsz np newa] r ra
  obtain k np'' fresh where al: "jl_alloc_int_1d np'' (doubled k newsz) = Inr fresh"
    and ok: "reinsert_entries hash data (entries a) fresh = Inr (True, newa)"
    and ms: "mset (entries newa) = mset (entries a)" by blast
  have "el newa = el fresh" using reinsert_shape[OF ok] by simp
  then have num: "numeric newa" using alloc_shape[OF al] numeric_el[of newa fresh] by simp
  have "set (entries newa) = set (entries a)" using ms by (rule mset_eq_setD)
  then have "\<forall>v \<in> set (slots newa). v < 2147483647"
    using dom by (auto simp: entries_def)
  with ra num show ?thesis by blast
qed

lemma bind_Some_cases:
  assumes "Option.bind m (\<lambda>r. case r of Inl e \<Rightarrow> Some (Inl e) | Inr a'' \<Rightarrow> g a'') = Some y"
  obtains (fault) e where "m = Some (Inl e)" "y = Inl e"
  | (went) a'' where "m = Some (Inr a'')" "g a'' = Some y"
  using assms by (cases m) (auto split: sum.splits)

lemma insert_retry_no_fault:
  assumes "insert_retry n_inline hash val data a = Some r"
  shows "numeric a \<and> (\<forall>v \<in> set (slots a). v < 2147483647) \<and> (val + 1) mod size_mod < 2147483647 \<longrightarrow>
     (\<exists>a'. r = Inr a' \<and> numeric a' \<and> (\<forall>v \<in> set (slots a'). v < 2147483647))"
proof (rule insert_retry.raw_induct[where P = "\<lambda>n_inline hash val data a r.
     numeric a \<and> (\<forall>v \<in> set (slots a). v < 2147483647) \<and> (val + 1) mod size_mod < 2147483647 \<longrightarrow>
     (\<exists>a'. r = Inr a' \<and> numeric a' \<and> (\<forall>v \<in> set (slots a'). v < 2147483647))", OF _ assms])
  fix f :: "nat \<Rightarrow> (nat \<Rightarrow> 'a \<Rightarrow> nat) \<Rightarrow> nat \<Rightarrow> 'a \<Rightarrow> jl_array \<Rightarrow> (fault + jl_array) option"
  fix n_inline and hash :: "nat \<Rightarrow> 'a \<Rightarrow> nat" and val and data :: 'a and a y
  assume IH: "\<And>n_inline hash val data a y. f n_inline hash val data a = Some y \<Longrightarrow>
     numeric a \<and> (\<forall>v \<in> set (slots a). v < 2147483647) \<and> (val + 1) mod size_mod < 2147483647 \<longrightarrow>
     (\<exists>a'. y = Inr a' \<and> numeric a' \<and> (\<forall>v \<in> set (slots a'). v < 2147483647))"
  assume body: "(case smallintset_insert_aux a (hash val data) ((val + 1) mod size_mod) of
        Inl e \<Rightarrow> Some (Inl e)
      | Inr (ok, a') \<Rightarrow>
          if ok then Some (Inr a')
          else
            Option.bind
              (smallintset_rehash hash data a' (grow_newsz n_inline (jl_array_nrows a')) 0)
              (\<lambda>r. case r of
                 Inl e \<Rightarrow> Some (Inl e)
               | Inr a'' \<Rightarrow> f n_inline hash val data a'')) = Some y"
  show "numeric a \<and> (\<forall>v \<in> set (slots a). v < 2147483647) \<and> (val + 1) mod size_mod < 2147483647 \<longrightarrow>
     (\<exists>a'. y = Inr a' \<and> numeric a' \<and> (\<forall>v \<in> set (slots a'). v < 2147483647))"
  proof
    assume h: "numeric a \<and> (\<forall>v \<in> set (slots a). v < 2147483647) \<and>
        (val + 1) mod size_mod < 2147483647"
    let ?v = "(val + 1) mod size_mod"
    from h have hn: "numeric a" and hd: "\<forall>v \<in> set (slots a). v < 2147483647"
      and hv: "?v < 2147483647" by blast+
    from insert_aux_no_fault[OF hn, of "hash val data" ?v] obtain ok a1 where
      st: "smallintset_insert_aux a (hash val data) ?v = Inr (ok, a1)"
      by (cases "smallintset_insert_aux a (hash val data) ?v") auto
    show "\<exists>a'. y = Inr a' \<and> numeric a' \<and> (\<forall>v \<in> set (slots a'). v < 2147483647)"
    proof (cases ok)
      case True
      with body st have y: "y = Inr a1" by simp
      from st True have st': "smallintset_insert_aux a (hash val data) ?v = Inr (True, a1)" by simp
      from insert_aux_ok[OF st'] obtain p where rel: "jl_intset_release a p ?v = Inr a1" by blast
      from release_value[OF rel] obtain w where w: "w \<le> ?v" "slots a1 = (slots a)[p := w]" by blast
      have "el a1 = el a" using release_shape[OF rel] by simp
      then have num: "numeric a1" using hn numeric_el[of a1 a] by simp
      have "\<forall>v \<in> set (slots a1). v < 2147483647"
      proof
        fix v assume "v \<in> set (slots a1)"
        then have "v \<in> set ((slots a)[p := w])" by (simp only: w(2))
        then have "v \<in> insert w (set (slots a))"
          by (rule set_update_subset_insert[THEN subsetD])
        then have "v = w \<or> v \<in> set (slots a)" by simp
        then show "v < 2147483647"
        proof
          assume "v = w"
          with w(1) hv show ?thesis by linarith
        next
          assume "v \<in> set (slots a)"
          with hd show ?thesis by blast
        qed
      qed
      with y num show ?thesis by blast
    next
      case False
      with st have st': "smallintset_insert_aux a (hash val data) ?v = Inr (False, a1)" by simp
      have same: "a1 = a" by (rule insert_aux_fail_same[OF st'])
      from body st' same have b: "Option.bind
              (smallintset_rehash hash data a (grow_newsz n_inline (jl_array_nrows a)) 0)
              (\<lambda>r. case r of Inl e \<Rightarrow> Some (Inl e)
               | Inr a'' \<Rightarrow> f n_inline hash val data a'') = Some y" by simp
      from b show ?thesis
      proof (cases rule: bind_Some_cases)
        case (fault e)
        from rehash_no_fault[OF fault(1) _ _ hd] hn show ?thesis by auto
      next
        case (went a'')
        from rehash_no_fault[OF went(1) _ _ hd] hn have
          "numeric a'' \<and> (\<forall>v \<in> set (slots a''). v < 2147483647)" by auto
        with IH[OF went(2)] hv show ?thesis by blast
      qed
    qed
  qed
qed


lemma insert_no_fault:
  assumes r: "jl_smallintset_insert n_inline hash val data a = Some r"
    and rd: "numeric a \<or> slots a = [] \<and> el a = AnyT"
    and dom: "\<forall>v \<in> set (slots a). v < 2147483647"
    and v: "val + 1 < 2147483647"
  shows "\<exists>a'. r = Inr a' \<and> numeric a' \<and> (\<forall>v \<in> set (slots a'). v < 2147483647)"
proof -
  have vm: "(val + 1) mod size_mod = val + 1"
    using v by (simp add: size_mod_def)
  have hv: "(val + 1) mod size_mod < 2147483647" using v vm by simp
  from rd obtain mx where mx: "jl_max_int a = Inr mx" "\<not> numeric a \<longrightarrow> mx = 0"
    by (auto simp: jl_max_int_def numeric_def)
  have rd': "numeric a \<or> slots a = []" using rd by blast
  show ?thesis
  proof (cases "(val + 1) mod size_mod > mx")
    case True
    with r mx(1) have b: "Option.bind
        (smallintset_rehash hash data a (jl_array_nrows a) ((val + 1) mod size_mod))
        (\<lambda>r. case r of Inl e \<Rightarrow> Some (Inl e)
             | Inr a' \<Rightarrow> insert_retry n_inline hash val data a') = Some r"
      by (simp add: jl_smallintset_insert_def)
    from b show ?thesis
    proof (cases rule: bind_Some_cases)
      case (fault e)
      from rehash_no_fault[OF fault(1) rd' hv dom] show ?thesis by auto
    next
      case (went a'')
      from rehash_no_fault[OF went(1) rd' hv dom] have
        "numeric a'' \<and> (\<forall>v \<in> set (slots a''). v < 2147483647)" by auto
      with insert_retry_no_fault[OF went(2)] hv show ?thesis by blast
    qed
  next
    case False
    then have na: "numeric a" using mx(2) vm by auto
    from r mx(1) False have ir: "insert_retry n_inline hash val data a = Some r"
      by (simp add: jl_smallintset_insert_def)
    from insert_retry_no_fault[OF ir] na dom hv show ?thesis by blast
  qed
qed

subsection \<open>Capacities through rehash and growth\<close>

lemma doubled_zero: "doubled k 0 = 0"
  by (induction k) simp_all

lemma pow2_mod_size_cases: "(2::nat) ^ j mod size_mod = 2 ^ j \<or> (2::nat) ^ j mod size_mod = 0"
proof (cases "j < 64")
  case True
  then show ?thesis by (simp add: pow2_mod_size)
next
  case False
  then have "(2::nat) ^ 64 dvd 2 ^ j" by (intro le_imp_power_dvd) simp
  then show ?thesis by (simp add: size_mod_def)
qed

lemma doubled_pow2_cases: "doubled k (2 ^ i) = 0 \<or> doubled k (2 ^ i) = 2 ^ (i + k)"
proof (induction k arbitrary: i)
  case 0
  then show ?case by simp
next
  case (Suc k)
  have "(2 * (2::nat) ^ i) mod size_mod = 2 ^ Suc i \<or> (2 * (2::nat) ^ i) mod size_mod = 0"
    using pow2_mod_size_cases[of "Suc i"] by simp
  then show ?case
  proof
    assume "(2 * (2::nat) ^ i) mod size_mod = 2 ^ Suc i"
    with Suc.IH[of "Suc i"] show ?thesis by simp
  next
    assume "(2 * (2::nat) ^ i) mod size_mod = 0"
    then show ?thesis by (simp add: doubled_zero)
  qed
qed

lemma rehash_keeps_inv:
  assumes r: "smallintset_rehash hash data a newsz np = Some (Inr newa)"
    and cap: "newsz = 0 \<or> (\<exists>i. newsz = 2 ^ i)"
    and big: "newsz = 0 \<or> n_inline \<le> newsz \<or> newsz \<le> 1 \<and> entries a = []"
  shows "table_inv n_inline newa \<and> (jl_array_nrows newa = 0 \<or> (\<exists>i. jl_array_nrows newa = 2 ^ i))"
proof -
  from rehash_content[OF r] obtain k np' fresh where
    ok: "reinsert_entries hash data (entries a) fresh = Inr (True, newa)"
    and fails: "\<forall>j<k. \<exists>fj tj. jl_alloc_int_1d np' (doubled j newsz) = Inr fj \<and>
           reinsert_entries hash data (entries a) fj = Inr (False, tj)"
    and nr: "jl_array_nrows newa = doubled k newsz"
    and ms: "mset (entries newa) = mset (entries a)" by blast
  show ?thesis
  proof (cases "jl_array_nrows newa = 0")
    case True
    then have "entries newa = []" by (simp add: jl_array_nrows_def entries_def)
    with True show ?thesis by (simp add: table_inv_def)
  next
    case False
    have nz: "newsz \<noteq> 0"
    proof
      assume "newsz = 0"
      then have "doubled k newsz = 0" by (simp only: doubled_zero)
      with nr False show False by simp
    qed
    with cap obtain i where i: "newsz = 2 ^ i" by blast
    from doubled_pow2_cases[of k i] nr False i have cap': "jl_array_nrows newa = 2 ^ (i + k)"
      by simp
    have grow: "newsz \<le> jl_array_nrows newa" unfolding cap' i by simp
    from big nz have "n_inline \<le> newsz \<or> newsz \<le> 1 \<and> entries a = []" by simp
    then have "table_inv n_inline newa"
    proof
      assume "n_inline \<le> newsz"
      with grow show ?thesis by (simp add: table_inv_def)
    next
      assume e: "newsz \<le> 1 \<and> entries a = []"
      have "k = 0"
      proof (rule ccontr)
        assume "k \<noteq> 0"
        then have "0 < k" by simp
        with fails obtain fj tj where "reinsert_entries hash data (entries a) fj = Inr (False, tj)"
          by blast
        with e show False by simp
      qed
      with nr e ms show ?thesis by (simp add: table_inv_def)
    qed
    with cap' show ?thesis by blast
  qed
qed

lemma wrapped_pow2:
  assumes "g = (2::nat) ^ j mod size_mod" and "n \<le> 2 ^ j"
  shows "(g = 0 \<or> (\<exists>i. g = 2 ^ i)) \<and> (g = 0 \<or> n \<le> g)"
  using pow2_mod_size_cases[of j] assms by auto

lemma grow_cases:
  assumes "n_inline = 2 ^ m" and "jl_array_nrows a = 0 \<or> (\<exists>i. jl_array_nrows a = 2 ^ i)"
  shows "(grow_newsz n_inline (jl_array_nrows a) = 0 \<or>
          (\<exists>i. grow_newsz n_inline (jl_array_nrows a) = 2 ^ i)) \<and>
         (grow_newsz n_inline (jl_array_nrows a) = 0 \<or>
          n_inline \<le> grow_newsz n_inline (jl_array_nrows a))"
proof (cases "jl_array_nrows a < n_inline")
  case True
  then show ?thesis using assms(1) by (auto simp: grow_newsz_def)
next
  case False
  have "(0::nat) < 2 ^ m" by simp
  with False assms(1) have pos: "jl_array_nrows a \<noteq> 0" by linarith
  with assms(2) obtain i where i: "jl_array_nrows a = 2 ^ i" by blast
  have d: "(2 * (2::nat) ^ i) mod size_mod = 2 ^ Suc i \<or> (2 * (2::nat) ^ i) mod size_mod = 0"
    using pow2_mod_size_cases[of "Suc i"] by simp
  have q: "(4 * (2::nat) ^ i) mod size_mod = 2 ^ Suc (Suc i) \<or> (4 * (2::nat) ^ i) mod size_mod = 0"
    using pow2_mod_size_cases[of "Suc (Suc i)"] by simp
  have le1: "n_inline \<le> 2 ^ Suc i" using False i by simp
  have le2: "n_inline \<le> 2 ^ Suc (Suc i)" using False i by simp
  have nl: "\<not> (2::nat) ^ i < n_inline" using False i by simp
  show ?thesis
  proof (cases "(2::nat) ^ 19 \<le> 2 ^ i \<or> (2::nat) ^ i \<le> 2 ^ 8")
    case True
    then have "grow_newsz n_inline (2 ^ i) = (2 * 2 ^ i) mod size_mod"
      using nl by (simp add: grow_newsz_def)
    then have "grow_newsz n_inline (2 ^ i) = 2 ^ Suc i mod size_mod" by simp
    from wrapped_pow2[OF this le1] show ?thesis unfolding i .
  next
    case F: False
    then have "grow_newsz n_inline (2 ^ i) = (4 * 2 ^ i) mod size_mod"
      using nl by (simp add: grow_newsz_def)
    then have "grow_newsz n_inline (2 ^ i) = 2 ^ Suc (Suc i) mod size_mod" by simp
    from wrapped_pow2[OF this le2] show ?thesis unfolding i .
  qed
qed

lemma insert_retry_inv:
  assumes "insert_retry n_inline hash val data a = Some r"
  shows "(\<exists>m. n_inline = 2 ^ m) \<and> table_inv n_inline a \<and>
       (jl_array_nrows a = 0 \<or> (\<exists>i. jl_array_nrows a = 2 ^ i)) \<longrightarrow>
     (\<forall>a'. r = Inr a' \<longrightarrow> n_inline \<le> jl_array_nrows a' \<and> (\<exists>i. jl_array_nrows a' = 2 ^ i))"
proof (rule insert_retry.raw_induct[where P = "\<lambda>n_inline hash val data a r.
     (\<exists>m. n_inline = 2 ^ m) \<and> table_inv n_inline a \<and>
       (jl_array_nrows a = 0 \<or> (\<exists>i. jl_array_nrows a = 2 ^ i)) \<longrightarrow>
     (\<forall>a'. r = Inr a' \<longrightarrow> n_inline \<le> jl_array_nrows a' \<and> (\<exists>i. jl_array_nrows a' = 2 ^ i))",
     OF _ assms])
  fix f :: "nat \<Rightarrow> (nat \<Rightarrow> 'a \<Rightarrow> nat) \<Rightarrow> nat \<Rightarrow> 'a \<Rightarrow> jl_array \<Rightarrow> (fault + jl_array) option"
  fix n_inline and hash :: "nat \<Rightarrow> 'a \<Rightarrow> nat" and val and data :: 'a and a y
  assume IH: "\<And>n_inline hash val data a y. f n_inline hash val data a = Some y \<Longrightarrow>
     (\<exists>m. n_inline = 2 ^ m) \<and> table_inv n_inline a \<and>
       (jl_array_nrows a = 0 \<or> (\<exists>i. jl_array_nrows a = 2 ^ i)) \<longrightarrow>
     (\<forall>a'. y = Inr a' \<longrightarrow> n_inline \<le> jl_array_nrows a' \<and> (\<exists>i. jl_array_nrows a' = 2 ^ i))"
  assume body: "(case smallintset_insert_aux a (hash val data) ((val + 1) mod size_mod) of
        Inl e \<Rightarrow> Some (Inl e)
      | Inr (ok, a') \<Rightarrow>
          if ok then Some (Inr a')
          else
            Option.bind
              (smallintset_rehash hash data a' (grow_newsz n_inline (jl_array_nrows a')) 0)
              (\<lambda>r. case r of
                 Inl e \<Rightarrow> Some (Inl e)
               | Inr a'' \<Rightarrow> f n_inline hash val data a'')) = Some y"
  show "(\<exists>m. n_inline = 2 ^ m) \<and> table_inv n_inline a \<and>
       (jl_array_nrows a = 0 \<or> (\<exists>i. jl_array_nrows a = 2 ^ i)) \<longrightarrow>
     (\<forall>a'. y = Inr a' \<longrightarrow> n_inline \<le> jl_array_nrows a' \<and> (\<exists>i. jl_array_nrows a' = 2 ^ i))"
  proof (intro impI allI)
    fix a'
    assume h: "(\<exists>m. n_inline = 2 ^ m) \<and> table_inv n_inline a \<and>
       (jl_array_nrows a = 0 \<or> (\<exists>i. jl_array_nrows a = 2 ^ i))"
    assume y: "y = Inr a'"
    let ?v = "(val + 1) mod size_mod"
    from h obtain m where N: "n_inline = 2 ^ m" by blast
    from h have inv: "table_inv n_inline a"
      and cap: "jl_array_nrows a = 0 \<or> (\<exists>i. jl_array_nrows a = 2 ^ i)" by blast+
    from body y obtain ok a1 where
      st: "smallintset_insert_aux a (hash val data) ?v = Inr (ok, a1)"
      by (cases "smallintset_insert_aux a (hash val data) ?v") auto
    show "n_inline \<le> jl_array_nrows a' \<and> (\<exists>i. jl_array_nrows a' = 2 ^ i)"
    proof (cases ok)
      case True
      with body st y have e: "a1 = a'" by simp
      from st True e have st': "smallintset_insert_aux a (hash val data) ?v = Inr (True, a')"
        by simp
      from insert_aux_ok[OF st'] have two: "2 \<le> jl_array_nrows a"
        by (simp add: jl_array_nrows_def)
      have same: "jl_array_nrows a' = jl_array_nrows a"
        using insert_aux_shape[OF st'] by (simp add: jl_array_nrows_def)
      from inv two have "n_inline \<le> jl_array_nrows a" by (auto simp: table_inv_def)
      moreover from cap two have "\<exists>i. jl_array_nrows a = 2 ^ i" by auto
      ultimately show ?thesis unfolding same by blast
    next
      case False
      with st have st': "smallintset_insert_aux a (hash val data) ?v = Inr (False, a1)" by simp
      have same: "a1 = a" by (rule insert_aux_fail_same[OF st'])
      from body st' same have b: "Option.bind
              (smallintset_rehash hash data a (grow_newsz n_inline (jl_array_nrows a)) 0)
              (\<lambda>r. case r of Inl e \<Rightarrow> Some (Inl e)
               | Inr a'' \<Rightarrow> f n_inline hash val data a'') = Some y" by simp
      note g = grow_cases[OF N cap]
      from b show ?thesis
      proof (cases rule: bind_Some_cases)
        case (fault e)
        with y show ?thesis by simp
      next
        case (went a'')
        have "table_inv n_inline a'' \<and>
            (jl_array_nrows a'' = 0 \<or> (\<exists>i. jl_array_nrows a'' = 2 ^ i))"
          by (rule rehash_keeps_inv[OF went(1)]) (use g in blast)+
        with IH[OF went(2)] N y show ?thesis by blast
      qed
    qed
  qed
qed

lemma insert_inv:
  assumes r: "jl_smallintset_insert n_inline hash val data a = Some (Inr a')"
    and N: "n_inline = 2 ^ m"
    and inv: "table_inv n_inline a"
    and cap: "jl_array_nrows a = 0 \<or> (\<exists>i. jl_array_nrows a = 2 ^ i)"
  shows "n_inline \<le> jl_array_nrows a' \<and> (\<exists>i. jl_array_nrows a' = 2 ^ i)"
proof -
  from r obtain mx where mx: "jl_max_int a = Inr mx"
    by (cases "jl_max_int a") (auto simp: jl_smallintset_insert_def)
  show ?thesis
  proof (cases "(val + 1) mod size_mod > mx")
    case True
    with r mx have b: "Option.bind
        (smallintset_rehash hash data a (jl_array_nrows a) ((val + 1) mod size_mod))
        (\<lambda>r. case r of Inl e \<Rightarrow> Some (Inl e)
             | Inr a' \<Rightarrow> insert_retry n_inline hash val data a') = Some (Inr a')"
      by (simp add: jl_smallintset_insert_def)
    from b show ?thesis
    proof (cases rule: bind_Some_cases)
      case (fault e)
      then show ?thesis by simp
    next
      case (went a'')
      have big: "jl_array_nrows a = 0 \<or> n_inline \<le> jl_array_nrows a \<or>
          jl_array_nrows a \<le> 1 \<and> entries a = []"
        using inv by (auto simp: table_inv_def)
      have "table_inv n_inline a'' \<and>
          (jl_array_nrows a'' = 0 \<or> (\<exists>i. jl_array_nrows a'' = 2 ^ i))"
        by (rule rehash_keeps_inv[OF went(1) cap big])
      with insert_retry_inv[OF went(2)] N show ?thesis by blast
    qed
  next
    case False
    with r mx have "insert_retry n_inline hash val data a = Some (Inr a')"
      by (simp add: jl_smallintset_insert_def)
    from insert_retry_inv[OF this] N inv cap show ?thesis by blast
  qed
qed

section \<open>Inserting a value of the 16-bit range into an empty set\<close>

text \<open>
  \<open>jl_smallintset_insert\<close> first widens for \<open>val + 1\<close> (the call of line 163 passes
  \<open>np = val + 1\<close>), but the rehash that grows a full table (line 182) passes \<open>np = 0\<close>:
  the width of the grown table is chosen from the old entries alone. On the empty set
  of capacity 0 and the logical index 299 the widened table is empty, the grown table
  has 8-bit slots again, and the store converts 300 to \<open>uint8_t\<close>, which is 44.
\<close>

lemma widen_empty_300:
  "smallintset_rehash hash_id () \<lparr>el = UInt8, slots = []\<rparr> 0 300 =
     Some (Inr \<lparr>el = UInt16, slots = []\<rparr>)"
  by (simp add: smallintset_rehash_def jl_array_nrows_def rehash_loop.simps jl_alloc_int_1d_def)

lemma grow_empty_32:
  "smallintset_rehash hash_id () \<lparr>el = UInt16, slots = []\<rparr> 32 0 =
     Some (Inr \<lparr>el = UInt8, slots = replicate 32 0\<rparr>)"
  by (simp add: smallintset_rehash_def jl_array_nrows_def rehash_loop.simps jl_alloc_int_1d_def)

lemma place_300_in_uint8:
  "smallintset_insert_aux \<lparr>el = UInt8, slots = replicate 32 0\<rparr> 299 300 =
     Inr (True, \<lparr>el = UInt8, slots = (replicate 32 0)[11 := 44]\<rparr>)"
  by (simp add: insert_loop.simps smallintset_insert_aux_def jl_array_nrows_def h2index_def max_probe_def
      jl_intref_def load_slot_def jl_intset_release_def store_slot_def)

lemma insert_299_empty:
  "jl_smallintset_insert 32 hash_id 299 () \<lparr>el = UInt8, slots = []\<rparr> =
     Some (Inr \<lparr>el = UInt8, slots = (replicate 32 0)[11 := 44]\<rparr>)"
  apply (simp add: jl_smallintset_insert_def jl_max_int_def size_mod_def jl_array_nrows_def
      widen_empty_300)
  apply (subst insert_retry.simps)
  apply (simp add: smallintset_insert_aux_def jl_array_nrows_def grow_newsz_def grow_empty_32
      size_mod_def)
  apply (subst insert_retry.simps)
  apply (simp add: size_mod_def hash_id_def place_300_in_uint8)
  done

lemma lookup_299_missing:
  "jl_smallintset_lookup \<lparr>el = UInt8, slots = (replicate 32 0)[11 := 44]\<rparr> eq_id 299 () 299 =
     Inr (- 1)"
  apply (simp add: jl_smallintset_lookup_def jl_array_nrows_def h2index_def max_probe_def)
  apply (subst lookup_loop.simps)
  apply (simp add: jl_intref_acquire_def load_slot_def eq_id_def)
  apply (subst lookup_loop.simps)
  apply (simp add: jl_intref_acquire_def load_slot_def eq_id_def)
  done

text \<open>
  Claim C1 (round trip). Every inserted logical index is found again by a lookup with
  the same hash and an equality test that matches it. The code does not do this for the
  single insert of 299 into the empty set of capacity 0, with the hash \<open>h(i) = i\<close> and
  \<open>HT_N_INLINE = 32\<close>: the insert returns a table of 8-bit slots that holds 44 at slot 11
  (the first slot probed, so no probe bound is involved), and the lookup of 299 answers
  \<open>-1\<close>, not found.
\<close>

theorem roundtrip_lost_at_299:
  "jl_smallintset_insert 32 hash_id 299 () \<lparr>el = UInt8, slots = []\<rparr> =
     Some (Inr \<lparr>el = UInt8, slots = (replicate 32 0)[11 := 44]\<rparr>) \<and>
   jl_smallintset_lookup \<lparr>el = UInt8, slots = (replicate 32 0)[11 := 44]\<rparr>
     eq_id 299 () (hash_id 299 ()) = Inr (- 1)"
  using insert_299_empty lookup_299_missing by (simp add: hash_id_def)

text \<open>
  Claim C2 (width monotonicity). The width of the published table never decreases, and
  after an insert the largest slot value of the width is at least the inserted index
  plus one. On the same run the code publishes a 16-bit table (the widening rehash) and
  then an 8-bit table (the growing rehash, at the capacity \<open>grow_newsz 32 0 = 32\<close>); the
  table that is current after the insert has the largest value 255, below 299 + 1.
\<close>

theorem width_narrowed_at_299:
  "smallintset_rehash hash_id () \<lparr>el = UInt8, slots = []\<rparr> 0 300 =
     Some (Inr \<lparr>el = UInt16, slots = []\<rparr>) \<and>
   smallintset_rehash hash_id () \<lparr>el = UInt16, slots = []\<rparr> (grow_newsz 32 0) 0 =
     Some (Inr \<lparr>el = UInt8, slots = replicate 32 0\<rparr>) \<and>
   jl_smallintset_insert 32 hash_id 299 () \<lparr>el = UInt8, slots = []\<rparr> =
     Some (Inr \<lparr>el = UInt8, slots = (replicate 32 0)[11 := 44]\<rparr>) \<and>
   jl_max_int \<lparr>el = UInt8, slots = (replicate 32 0)[11 := 44]\<rparr> = Inr 255 \<and>
   (255 :: nat) < 299 + 1"
  using widen_empty_300 grow_empty_32 insert_299_empty
  by (simp add: grow_newsz_def jl_max_int_def)

section \<open>The width chosen by the allocation\<close>

text \<open>
  Claim C5, as stated: the allocation picks the narrowest width whose largest value is
  at least \<open>np\<close>, so 8 bits for every \<open>np \<le> 255\<close> and at most 16 bits for every
  \<open>np \<le> 65535\<close>. The comparisons of \<open>jl_alloc_int_1d\<close> are strict: at \<open>np = 255\<close> the
  slots have 16 bits, and at \<open>np = 65535\<close> they have 32 bits.
\<close>

theorem alloc_255_is_16bit:
  "jl_alloc_int_1d 255 4 = Inr \<lparr>el = UInt16, slots = [0, 0, 0, 0]\<rparr> \<and>
   jl_alloc_int_1d 65535 4 = Inr \<lparr>el = UInt32, slots = [0, 0, 0, 0]\<rparr>"
  by (simp add: jl_alloc_int_1d_def replicate_4)

text \<open>
  Claim C5, amended: when the allocation succeeds it picks the narrowest width whose
  largest value is strictly greater than \<open>np\<close>: 8 bits exactly for \<open>np < 255\<close>, 16 bits
  exactly for \<open>255 \<le> np < 65535\<close>, 32 bits from 65535 on; every slot of the new table
  is zero.
\<close>

theorem alloc_width_choice:
  assumes "jl_alloc_int_1d np len = Inr a"
  shows "(el a = UInt8 \<longleftrightarrow> np < 255) \<and> (el a = UInt16 \<longleftrightarrow> 255 \<le> np \<and> np < 65535) \<and>
     (el a = UInt32 \<longleftrightarrow> 65535 \<le> np) \<and> slots a = replicate len 0 \<and>
     (\<exists>m. jl_max_int a = Inr m \<and> np < m \<and>
        (\<forall>b m'. numeric b \<and> jl_max_int b = Inr m' \<and> np < m' \<longrightarrow> m \<le> m'))"
proof -
  consider (a) "np < 255" "a = \<lparr>el = UInt8, slots = replicate len 0\<rparr>"
    | (b) "255 \<le> np" "np < 65535" "a = \<lparr>el = UInt16, slots = replicate len 0\<rparr>"
    | (c) "65535 \<le> np" "np < 2147483647" "a = \<lparr>el = UInt32, slots = replicate len 0\<rparr>"
    using assms by (auto simp: jl_alloc_int_1d_def split: if_splits)
  then show ?thesis
  proof cases
    case a
    then show ?thesis by (auto simp: jl_max_int_def numeric_def)
  next
    case b
    then show ?thesis by (auto simp: jl_max_int_def numeric_def)
  next
    case c
    then show ?thesis by (auto simp: jl_max_int_def numeric_def)
  qed
qed

theorem alloc_width_choice_witness:
  "jl_alloc_int_1d 255 2 = Inr \<lparr>el = UInt16, slots = [0, 0]\<rparr> \<and>
   el \<lparr>el = UInt16, slots = [0, 0]\<rparr> \<noteq> UInt8 \<and>
   (\<exists>m. jl_max_int \<lparr>el = UInt16, slots = [0, 0]\<rparr> = Inr m \<and> 255 < m)"
proof -
  have h: "jl_alloc_int_1d 255 2 = Inr \<lparr>el = UInt16, slots = [0, 0]\<rparr>"
    by (simp add: jl_alloc_int_1d_def replicate_2)
  from alloc_width_choice[OF h] show ?thesis using h by auto
qed

section \<open>The domain boundary\<close>

text \<open>
  Claim C8, as stated: an insert or a rehash whose required value represents a logical
  index at or beyond \<open>2 ^ 31\<close> aborts, and no required value strictly below the boundary
  aborts. The assertion of \<open>jl_alloc_int_1d\<close> is \<open>np < 0x7FFFFFFF\<close>: the required value
  \<open>2 ^ 31 - 1\<close> (the logical index \<open>2 ^ 31 - 2\<close>) is below the boundary and aborts. And the
  assertion is on the allocation only: an insert of the logical index \<open>2 ^ 31\<close> into a
  32-bit table with a free slot stores \<open>2 ^ 31 + 1\<close> and returns.
\<close>

theorem boundary_is_not_2_31:
  "(2147483647 :: nat) < 2 ^ 31 \<and>
   smallintset_rehash hash_id () \<lparr>el = UInt8, slots = [0, 0]\<rparr> 2 2147483647 =
     Some (Inl AssertionFailed) \<and>
   jl_smallintset_insert 32 hash_id 2147483648 () \<lparr>el = UInt32, slots = [0, 0]\<rparr> =
     Some (Inr \<lparr>el = UInt32, slots = [2147483649, 0]\<rparr>)"
proof -
  have r: "smallintset_rehash hash_id () \<lparr>el = UInt8, slots = [0, 0]\<rparr> 2 2147483647 =
      Some (Inl AssertionFailed)"
    by (simp add: smallintset_rehash_def jl_array_nrows_def upt_conv_Cons jl_intref_def
        load_slot_def rehash_loop_assert)
  have p: "smallintset_insert_aux \<lparr>el = UInt32, slots = [0, 0]\<rparr> 2147483648 2147483649 =
      Inr (True, \<lparr>el = UInt32, slots = [2147483649, 0]\<rparr>)"
    by (simp add: smallintset_insert_aux_def jl_array_nrows_def h2index_def max_probe_def
        insert_loop.simps jl_intref_def load_slot_def jl_intset_release_def store_slot_def)
  have i: "jl_smallintset_insert 32 hash_id 2147483648 () \<lparr>el = UInt32, slots = [0, 0]\<rparr> =
      Some (Inr \<lparr>el = UInt32, slots = [2147483649, 0]\<rparr>)"
    apply (simp add: jl_smallintset_insert_def jl_max_int_def size_mod_def)
    apply (subst insert_retry.simps)
    apply (simp add: size_mod_def hash_id_def p)
    done
  show ?thesis using r i by simp
qed

text \<open>
  Claim C8, amended. Let \<open>np'\<close> be the value that a rehash requires: the largest of the
  pending value \<open>np\<close> and the slot values of the old table. If \<open>np'\<close> is at or beyond
  \<open>2 ^ 31 - 1\<close> the rehash aborts on the assertion and publishes nothing; if \<open>np'\<close> is
  strictly below \<open>2 ^ 31 - 1\<close> the rehash does not fail the assertion. An insert whose
  \<open>val + 1\<close> exceeds the largest value of the current width goes through this rehash with
  \<open>np = val + 1\<close>, so it aborts when \<open>val + 1\<close> is at or beyond \<open>2 ^ 31 - 1\<close>. An insert
  whose \<open>val + 1\<close> and whose table's slot values are all strictly below \<open>2 ^ 31 - 1\<close> does
  not fail the assertion.
\<close>

theorem domain_boundary:
  assumes "rehash_np a [0..<jl_array_nrows a] np = Inr np'"
  shows "np \<le> np' \<and> (\<forall>i < length (slots a). slots a ! i \<le> np') \<and>
     (np' = np \<or> np' \<in> set (slots a)) \<and>
     (2147483647 \<le> np' \<longrightarrow>
        smallintset_rehash hash data a newsz np = Some (Inl AssertionFailed)) \<and>
     (np' < 2147483647 \<longrightarrow>
        smallintset_rehash hash data a newsz np \<noteq> Some (Inl AssertionFailed)) \<and>
     (\<forall>m. jl_max_int a = Inr m \<and> np = (val + 1) mod size_mod \<and> m < np \<and> 2147483647 \<le> np \<longrightarrow>
        jl_smallintset_insert n_inline hash val data a = Some (Inl AssertionFailed)) \<and>
     ((\<forall>v \<in> set (slots a). v < 2147483647) \<and> val' + 1 < 2147483647 \<longrightarrow>
        jl_smallintset_insert n_inline hash val' data a \<noteq> Some (Inl AssertionFailed))"
proof -
  from rehash_np_max[OF assms]
  have mx: "np \<le> np'" "\<forall>i < length (slots a). slots a ! i \<le> np'"
    "np' = np \<or> np' \<in> set (slots a)"
    by (auto simp: jl_array_nrows_def)
  have r: "smallintset_rehash hash data a newsz np = rehash_loop hash data a np' newsz"
    for newsz
    by (simp add: smallintset_rehash_def assms)
  have big: "2147483647 \<le> np' \<longrightarrow>
      smallintset_rehash hash data a newsz np = Some (Inl AssertionFailed)" for newsz
    by (simp add: r rehash_loop_assert)
  have small: "np' < 2147483647 \<longrightarrow>
      smallintset_rehash hash data a newsz np \<noteq> Some (Inl AssertionFailed)"
    using rehash_loop_no_assert[of hash data a np' newsz "Inl AssertionFailed"]
    by (auto simp: r)
  have ins: "jl_smallintset_insert n_inline hash val data a = Some (Inl AssertionFailed)"
    if "jl_max_int a = Inr m" "np = (val + 1) mod size_mod" "m < np" "2147483647 \<le> np" for m
  proof -
    have "2147483647 \<le> np'" using that(4) mx(1) by simp
    with big[of "jl_array_nrows a"] that(1,2,3) show ?thesis
      by (simp add: jl_smallintset_insert_def)
  qed
  have rd: "numeric a \<or> slots a = []" by (rule rehash_np_readable[OF assms])
  have below: "jl_smallintset_insert n_inline hash val' data a \<noteq> Some (Inl AssertionFailed)"
    if "(\<forall>v \<in> set (slots a). v < 2147483647) \<and> val' + 1 < 2147483647"
  proof (cases "el a = OtherT")
    case True
    then have "jl_smallintset_insert n_inline hash val' data a = Some (Inl Aborted)"
      by (simp add: jl_smallintset_insert_def jl_max_int_def)
    then show ?thesis by simp
  next
    case False
    from that have d: "\<forall>v \<in> set (slots a). v < 2147483647" and v: "val' + 1 < 2147483647"
      by blast+
    have w: "numeric a \<or> slots a = [] \<and> el a = AnyT"
      using rd False by (cases "el a") (auto simp: numeric_def)
    show ?thesis
    proof
      assume f: "jl_smallintset_insert n_inline hash val' data a = Some (Inl AssertionFailed)"
      from insert_no_fault[OF f w d v] show False by blast
    qed
  qed
  show ?thesis using mx big small ins below by blast
qed

theorem domain_boundary_witness:
  "rehash_np \<lparr>el = UInt8, slots = [7, 0]\<rparr> [0..<jl_array_nrows \<lparr>el = UInt8, slots = [7, 0]\<rparr>]
     2147483647 = Inr 2147483647 \<and>
   smallintset_rehash hash_id () \<lparr>el = UInt8, slots = [7, 0]\<rparr> 2 2147483647 =
     Some (Inl AssertionFailed) \<and>
   jl_smallintset_insert 32 hash_id 2147483646 () \<lparr>el = UInt8, slots = [7, 0]\<rparr> =
     Some (Inl AssertionFailed) \<and>
   jl_smallintset_insert 32 hash_id 5 () \<lparr>el = UInt8, slots = [7, 0]\<rparr> \<noteq>
     Some (Inl AssertionFailed)"
proof -
  let ?a = "\<lparr>el = UInt8, slots = [7, 0]\<rparr>"
  have np: "rehash_np ?a [0..<jl_array_nrows ?a] 2147483647 = Inr 2147483647"
    by (simp add: jl_array_nrows_def upt_conv_Cons jl_intref_def load_slot_def)
  have pre: "jl_max_int ?a = Inr 255 \<and> (2147483647 :: nat) = (2147483646 + 1) mod size_mod \<and>
      (255 :: nat) < 2147483647 \<and> (2147483647 :: nat) \<le> 2147483647"
    by (simp add: jl_max_int_def size_mod_def)
  note db = domain_boundary[OF np, where hash = hash_id and data = "()" and newsz = 2
      and val = 2147483646 and n_inline = 32 and val' = 5]
  from db have r: "smallintset_rehash hash_id () ?a 2 2147483647 = Some (Inl AssertionFailed)"
    by blast
  from db have "\<forall>m. jl_max_int ?a = Inr m \<and> (2147483647 :: nat) = (2147483646 + 1) mod size_mod \<and>
        m < 2147483647 \<and> (2147483647 :: nat) \<le> 2147483647 \<longrightarrow>
        jl_smallintset_insert 32 hash_id 2147483646 () ?a = Some (Inl AssertionFailed)"
    by blast
  with pre have i: "jl_smallintset_insert 32 hash_id 2147483646 () ?a = Some (Inl AssertionFailed)"
    by blast
  have low: "(\<forall>v \<in> set (slots ?a). v < 2147483647) \<and> (5::nat) + 1 < 2147483647"
    by simp
  from db have "(\<forall>v \<in> set (slots ?a). v < 2147483647) \<and> (5::nat) + 1 < 2147483647 \<longrightarrow>
        jl_smallintset_insert 32 hash_id 5 () ?a \<noteq> Some (Inl AssertionFailed)"
    by (elim conjE)
  with low have j: "jl_smallintset_insert 32 hash_id 5 () ?a \<noteq> Some (Inl AssertionFailed)"
    by blast
  show ?thesis using np r i j by blast
qed

section \<open>The growth policy\<close>

text \<open>
  Claim C6. When the direct placement of insert fails on a table of capacity \<open>sz\<close>, the
  insert rehashes with the capacity \<open>n_inline\<close> (the baseline minimum) if
  \<open>sz < n_inline\<close>, with \<open>sz * 2\<close> if \<open>sz \<ge> 2 ^ 19\<close> or \<open>sz \<le> 2 ^ 8\<close>, and with \<open>sz * 4\<close>
  otherwise, and then retries. The capacity is below \<open>2 ^ 63\<close>, as the length of an array
  in memory is, so that the shift of the 64-bit \<open>size_t\<close> is the product.
\<close>

theorem growth_policy:
  assumes "smallintset_insert_aux a (hash val data) ((val + 1) mod size_mod) = Inr (False, a')"
    and "jl_array_nrows a < 2 ^ 63"
  shows "insert_retry n_inline hash val data a =
     Option.bind (smallintset_rehash hash data a
        (if jl_array_nrows a < n_inline then n_inline
         else if 2 ^ 19 \<le> jl_array_nrows a \<or> jl_array_nrows a \<le> 2 ^ 8
           then jl_array_nrows a * 2
         else jl_array_nrows a * 4) 0)
       (\<lambda>r. case r of Inl e \<Rightarrow> Some (Inl e)
           | Inr a'' \<Rightarrow> insert_retry n_inline hash val data a'')"
proof -
  have same: "a' = a" using assms(1) by (rule insert_aux_fail_same)
  have g: "grow_newsz n_inline (jl_array_nrows a) =
     (if jl_array_nrows a < n_inline then n_inline
      else if 2 ^ 19 \<le> jl_array_nrows a \<or> jl_array_nrows a \<le> 2 ^ 8 then jl_array_nrows a * 2
      else jl_array_nrows a * 4)"
    using assms(2) by (auto simp: grow_newsz_def size_mod_def)
  show ?thesis using assms(1)
    by (subst insert_retry.simps) (simp add: same flip: g)
qed

theorem growth_policy_witness:
  "smallintset_insert_aux \<lparr>el = UInt8, slots = [1, 2]\<rparr> (hash_id 2 ()) ((2 + 1) mod size_mod) =
     Inr (False, \<lparr>el = UInt8, slots = [1, 2]\<rparr>) \<and>
   jl_array_nrows \<lparr>el = UInt8, slots = [1, 2]\<rparr> < 2 ^ 63 \<and>
   insert_retry 32 hash_id 2 () \<lparr>el = UInt8, slots = [1, 2]\<rparr> =
     Option.bind (smallintset_rehash hash_id () \<lparr>el = UInt8, slots = [1, 2]\<rparr> 32 0)
       (\<lambda>r. case r of Inl e \<Rightarrow> Some (Inl e)
           | Inr a'' \<Rightarrow> insert_retry 32 hash_id 2 () a'')"
proof -
  have full: "smallintset_insert_aux \<lparr>el = UInt8, slots = [1, 2]\<rparr> (hash_id 2 ())
      ((2 + 1) mod size_mod) = Inr (False, \<lparr>el = UInt8, slots = [1, 2]\<rparr>)"
    by (simp add: smallintset_insert_aux_def jl_array_nrows_def h2index_def max_probe_def
        hash_id_def size_mod_def insert_loop.simps jl_intref_def load_slot_def)
  have cap: "jl_array_nrows \<lparr>el = UInt8, slots = [1, 2]\<rparr> < 2 ^ 63"
    by (simp add: jl_array_nrows_def)
  from growth_policy[where hash = hash_id and val = 2 and data = "()" and n_inline = 32,
      OF full cap]
  show ?thesis
    using full cap by (simp add: jl_array_nrows_def)
qed

section \<open>Lookup and the probe bound\<close>

text \<open>
  Claim C7. On a table of capacity 0 the lookup answers not found (\<open>-1\<close>) at once. On a
  table whose capacity is a power of two the lookup is the scan of the specification
  over the probe sequence: it starts at \<open>h mod sz\<close>, steps by \<open>+1 mod sz\<close>, stops on
  returning to the start and visits at most \<open>maxProbe + 1\<close> slots, where \<open>maxProbe\<close> is 16
  if \<open>sz \<le> 1024\<close> and \<open>sz / 64\<close> otherwise (the slots \<open>(h + j) mod sz\<close> for \<open>j\<close> below the
  smaller of \<open>maxProbe + 1\<close> and \<open>sz\<close>); the answer is not found at the first zero
  slot, \<open>v - 1\<close> at the first slot value \<open>v\<close> whose \<open>v - 1\<close> the equality test accepts, and
  not found when the visits are exhausted.
\<close>

theorem lookup_follows_probe_sequence:
  assumes "slots cache = [] \<or> numeric cache \<and> length (slots cache) = 2 ^ k"
  shows "jl_smallintset_lookup cache eq key data hv = Inr (spec_lookup cache eq key data hv) \<and>
     (slots cache = [] \<longrightarrow> jl_smallintset_lookup cache eq key data hv = Inr (- 1)) \<and>
     length (spec_probe_seq hv (length (slots cache))) \<le> spec_max_probe (length (slots cache)) + 1 \<and>
     (slots cache \<noteq> [] \<longrightarrow>
        spec_probe_seq hv (length (slots cache)) =
          map (\<lambda>j. (hv + j) mod length (slots cache))
            [0..<min (spec_max_probe (length (slots cache)) + 1) (length (slots cache))])"
proof -
  have a: "jl_smallintset_lookup cache eq key data hv = Inr (spec_lookup cache eq key data hv)"
    using assms
  proof
    assume "slots cache = []"
    then show ?thesis by (simp add: lookup_empty spec_lookup_def)
  next
    assume "numeric cache \<and> length (slots cache) = 2 ^ k"
    then show ?thesis by (simp add: lookup_refines)
  qed
  have b: "slots cache = [] \<longrightarrow> jl_smallintset_lookup cache eq key data hv = Inr (- 1)"
    by (simp add: lookup_empty)
  have c: "length (spec_probe_seq hv (length (slots cache)))
      \<le> spec_max_probe (length (slots cache)) + 1"
    unfolding spec_probe_seq_def by (rule spec_probe_from_length)
  have d: "slots cache \<noteq> [] \<longrightarrow>
        spec_probe_seq hv (length (slots cache)) =
          map (\<lambda>j. (hv + j) mod length (slots cache))
            [0..<min (spec_max_probe (length (slots cache)) + 1) (length (slots cache))]"
    by (simp add: spec_probe_seq_closed)
  show ?thesis using a b c d by blast
qed

theorem lookup_follows_probe_sequence_witness:
  "numeric \<lparr>el = UInt8, slots = [0, 9, 3, 0]\<rparr> \<and>
   length (slots \<lparr>el = UInt8, slots = [0, 9, 3, 0]\<rparr>) = 2 ^ 2 \<and>
   jl_smallintset_lookup \<lparr>el = UInt8, slots = [0, 9, 3, 0]\<rparr> eq_id 2 () 5 = Inr 2 \<and>
   spec_lookup \<lparr>el = UInt8, slots = [0, 9, 3, 0]\<rparr> eq_id 2 () 5 = 2"
proof -
  have n: "numeric \<lparr>el = UInt8, slots = [0, 9, 3, 0]\<rparr>"
    by (simp add: numeric_def)
  have l: "length (slots \<lparr>el = UInt8, slots = [0, 9, 3, 0]\<rparr>) = 2 ^ 2"
    by simp
  have s: "spec_lookup \<lparr>el = UInt8, slots = [0, 9, 3, 0]\<rparr> eq_id 2 () 5 = 2"
    by (simp add: spec_lookup_def spec_probe_seq_def spec_max_probe_def eq_id_def
        spec_probe_from_pos)
  from lookup_follows_probe_sequence[of "\<lparr>el = UInt8, slots = [0, 9, 3, 0]\<rparr>" 2 eq_id 2 "()" 5]
  show ?thesis using n l s by simp
qed

section \<open>What a rehash publishes\<close>

lemma rehash_21:
  "smallintset_rehash hash_id () \<lparr>el = UInt8, slots = [2, 1]\<rparr> 1 0 =
     Some (Inr \<lparr>el = UInt8, slots = [1, 2]\<rparr>)"
proof -
  let ?a = "\<lparr>el = UInt8, slots = [2, 1]\<rparr>"
  have np: "rehash_np ?a [0..<jl_array_nrows ?a] 0 = Inr 2"
    by (simp add: jl_array_nrows_def upt_conv_Cons jl_intref_def load_slot_def)
  have rd: "numeric ?a \<or> slots ?a = []" by (simp add: numeric_def)
  have e: "entries ?a = [2, 1]" by (simp add: entries_def)
  have a1: "jl_alloc_int_1d 2 1 = Inr \<lparr>el = UInt8, slots = [0]\<rparr>"
    by (simp add: jl_alloc_int_1d_def)
  have a2: "jl_alloc_int_1d 2 2 = Inr \<lparr>el = UInt8, slots = [0, 0]\<rparr>"
    by (simp add: jl_alloc_int_1d_def replicate_2)
  have f1: "reinsert_entries hash_id () [2, 1] \<lparr>el = UInt8, slots = [0]\<rparr> =
      Inr (False, \<lparr>el = UInt8, slots = [0]\<rparr>)"
    by (simp add: insert_aux_small)
  have p1: "smallintset_insert_aux \<lparr>el = UInt8, slots = [0, 0]\<rparr> 1 2 =
      Inr (True, \<lparr>el = UInt8, slots = [0, 2]\<rparr>)"
    by (simp add: smallintset_insert_aux_def jl_array_nrows_def h2index_def max_probe_def
        insert_loop.simps jl_intref_def load_slot_def jl_intset_release_def store_slot_def)
  have p2: "smallintset_insert_aux \<lparr>el = UInt8, slots = [0, 2]\<rparr> 0 1 =
      Inr (True, \<lparr>el = UInt8, slots = [1, 2]\<rparr>)"
    by (simp add: smallintset_insert_aux_def jl_array_nrows_def h2index_def max_probe_def
        insert_loop.simps jl_intref_def load_slot_def jl_intset_release_def store_slot_def)
  have f2: "reinsert_entries hash_id () [2, 1] \<lparr>el = UInt8, slots = [0, 0]\<rparr> =
      Inr (True, \<lparr>el = UInt8, slots = [1, 2]\<rparr>)"
    using p1 p2 by (simp add: hash_id_def)
  have l2: "rehash_loop hash_id () ?a 2 2 = Some (Inr \<lparr>el = UInt8, slots = [1, 2]\<rparr>)"
    by (subst rehash_loop.simps) (simp only: a2 rehash_fill_reinsert[OF rd] e f2 sum.case
        prod.case if_True)
  have d: "(2 * 1) mod size_mod = (2::nat)" by (simp add: size_mod_def)
  have l1: "rehash_loop hash_id () ?a 2 1 = Some (Inr \<lparr>el = UInt8, slots = [1, 2]\<rparr>)"
    by (subst rehash_loop.simps) (simp only: a1 rehash_fill_reinsert[OF rd] e f1 sum.case
        prod.case if_False d l2)
  show ?thesis by (simp only: smallintset_rehash_def np sum.case l1)
qed

text \<open>
  Claim C4. A rehash that publishes a table \<open>newa\<close> has built it as follows: with \<open>np'\<close>
  the required value, the attempt at the capacity \<open>newsz\<close> doubled \<open>k\<close> times started
  from a freshly allocated table, all of whose slots are zero, and re-inserted every
  non-zero entry of the old table in increasing slot order, each by the placement of
  insert with the hash of its decoded index, without a failure; each of the \<open>k\<close> attempts
  before it started from a fresh table of its own capacity and was abandoned at a failed
  placement; and the published table holds exactly the entries of the old table.
\<close>

theorem rehash_rebuilds_from_empty:
  assumes "smallintset_rehash hash data a newsz np = Some (Inr newa)"
  shows "\<exists>k np' fresh. rehash_np a [0..<jl_array_nrows a] np = Inr np' \<and>
      jl_alloc_int_1d np' (doubled k newsz) = Inr fresh \<and>
      slots fresh = replicate (doubled k newsz) 0 \<and>
      reinsert_entries hash data (entries a) fresh = Inr (True, newa) \<and>
      (\<forall>j<k. \<exists>fj tj. jl_alloc_int_1d np' (doubled j newsz) = Inr fj \<and>
           reinsert_entries hash data (entries a) fj = Inr (False, tj)) \<and>
      jl_array_nrows newa = doubled k newsz \<and>
      mset (entries newa) = mset (entries a)"
  using assms by (rule rehash_content)

theorem rehash_rebuilds_from_empty_witness:
  "smallintset_rehash hash_id () \<lparr>el = UInt8, slots = [2, 1]\<rparr> 1 0 =
     Some (Inr \<lparr>el = UInt8, slots = [1, 2]\<rparr>) \<and>
   mset (entries \<lparr>el = UInt8, slots = [1, 2]\<rparr>) = mset (entries \<lparr>el = UInt8, slots = [2, 1]\<rparr>) \<and>
   jl_array_nrows \<lparr>el = UInt8, slots = [1, 2]\<rparr> = doubled 1 1"
proof -
  from rehash_rebuilds_from_empty[OF rehash_21]
  have "mset (entries \<lparr>el = UInt8, slots = [1, 2]\<rparr>) =
      mset (entries \<lparr>el = UInt8, slots = [2, 1]\<rparr>)" by blast
  then show ?thesis using rehash_21
    by (simp add: jl_array_nrows_def size_mod_def)
qed

section \<open>Termination\<close>

text \<open>
  Claim C9, as stated: for every table state and every in-domain logical index the
  retry loops of insert and of rehash reach success. The logical index \<open>2 ^ 31 - 2\<close> is
  below \<open>2 ^ 31\<close>; its insert into the empty set requires the value \<open>2 ^ 31 - 1\<close>, and the
  allocation of the widening rehash fails its assertion. Likewise the insert of the
  logical index 2 into a full 32-bit table that holds the slot value \<open>2 ^ 31 - 1\<close> (the
  logical index \<open>2 ^ 31 - 2\<close>) ends in the failed assertion of the growing rehash.
\<close>

theorem in_domain_insert_aborts:
  "(2147483646 :: nat) < 2 ^ 31 \<and>
   jl_smallintset_insert 32 hash_id 2147483646 () \<lparr>el = UInt8, slots = []\<rparr> =
     Some (Inl AssertionFailed) \<and>
   (2147483647 :: nat) - 1 < 2 ^ 31 \<and>
   jl_smallintset_insert 32 hash_id 2 () \<lparr>el = UInt32, slots = [2147483647, 2]\<rparr> =
     Some (Inl AssertionFailed)"
proof -
  have r1: "smallintset_rehash hash_id () \<lparr>el = UInt8, slots = []\<rparr> 0 2147483647 =
      Some (Inl AssertionFailed)"
    by (simp add: smallintset_rehash_def jl_array_nrows_def rehash_loop_assert)
  have i1: "jl_smallintset_insert 32 hash_id 2147483646 () \<lparr>el = UInt8, slots = []\<rparr> =
      Some (Inl AssertionFailed)"
    by (simp add: jl_smallintset_insert_def jl_max_int_def size_mod_def jl_array_nrows_def r1)
  let ?t = "\<lparr>el = UInt32, slots = [2147483647, 2]\<rparr>"
  have full: "smallintset_insert_aux ?t 2 3 = Inr (False, ?t)"
    by (simp add: smallintset_insert_aux_def jl_array_nrows_def h2index_def max_probe_def
        insert_loop.simps jl_intref_def load_slot_def)
  have r2: "smallintset_rehash hash_id () ?t 32 0 = Some (Inl AssertionFailed)"
    by (simp add: smallintset_rehash_def jl_array_nrows_def upt_conv_Cons jl_intref_def
        load_slot_def rehash_loop_assert)
  have i2: "jl_smallintset_insert 32 hash_id 2 () ?t = Some (Inl AssertionFailed)"
    apply (simp add: jl_smallintset_insert_def jl_max_int_def size_mod_def)
    apply (subst insert_retry.simps)
    apply (simp add: size_mod_def hash_id_def full grow_newsz_def jl_array_nrows_def r2)
    done
  show ?thesis using i1 i2 by simp
qed

text \<open>
  Claim C9, amended. Table states are those of the data model: the capacity is 0 or a
  power of two up to \<open>2 ^ 63\<close>, the table holds at most \<open>2 ^ 56\<close> entries, and
  \<open>HT_N_INLINE\<close> is a power of two from 2 to \<open>2 ^ 63\<close>. For every such table and every
  logical index insert terminates, and rehash terminates for every starting capacity
  that is a power of two, and for every starting capacity when the old table has no
  entries: both retry loops end after finitely many iterations. They end in success (a
  table is returned, not a fault) whenever the table is readable (8, 16 or 32-bit slots,
  or no slots at all) and its slot values and the required value (\<open>val + 1\<close> for insert)
  are strictly below \<open>2 ^ 31 - 1\<close>.
\<close>

theorem insert_and_rehash_terminate:
  assumes size: "length (entries a) \<le> 2 ^ 56"
    and i: "i \<le> 63"
    and N: "n_inline = 2 ^ m" "1 \<le> m" "m \<le> 63"
  shows "(newsz = 2 ^ i \<or> entries a = [] \<longrightarrow>
        (\<exists>r. smallintset_rehash hash data a newsz np = Some r)) \<and>
     (jl_array_nrows a = 0 \<or> jl_array_nrows a = 2 ^ i \<longrightarrow>
        (\<exists>r. jl_smallintset_insert n_inline hash val data a = Some r)) \<and>
     ((newsz = 2 ^ i \<or> entries a = []) \<and> (numeric a \<or> slots a = []) \<and>
        (\<forall>v \<in> set (slots a). v < 2147483647) \<and> np < 2147483647 \<longrightarrow>
        (\<exists>newa. smallintset_rehash hash data a newsz np = Some (Inr newa))) \<and>
     ((jl_array_nrows a = 0 \<or> jl_array_nrows a = 2 ^ i) \<and>
        (numeric a \<or> slots a = [] \<and> el a = AnyT) \<and>
        (\<forall>v \<in> set (slots a). v < 2147483647) \<and> val + 1 < 2147483647 \<longrightarrow>
        (\<exists>a'. jl_smallintset_insert n_inline hash val data a = Some (Inr a')))"
proof -
  have reh: "\<exists>r. smallintset_rehash hash data a newsz np = Some r"
    if "newsz = 2 ^ i \<or> entries a = []"
    using that
  proof
    assume "newsz = 2 ^ i"
    with rehash_terminates[OF size i, of hash data np] show ?thesis by blast
  next
    assume "entries a = []"
    then show ?thesis by (rule rehash_no_entries_terminates)
  qed
  have ins: "\<exists>r. jl_smallintset_insert n_inline hash val data a = Some r"
    if "jl_array_nrows a = 0 \<or> jl_array_nrows a = 2 ^ i"
  proof -
    from that i have "jl_array_nrows a = 0 \<or> (\<exists>i\<le>63. jl_array_nrows a = 2 ^ i)" by blast
    then show ?thesis by (rule insert_terminates[OF N _ size])
  qed
  have rok: "\<exists>newa. smallintset_rehash hash data a newsz np = Some (Inr newa)"
    if "(newsz = 2 ^ i \<or> entries a = []) \<and> (numeric a \<or> slots a = []) \<and>
        (\<forall>v \<in> set (slots a). v < 2147483647) \<and> np < 2147483647"
  proof -
    from that have c: "newsz = 2 ^ i \<or> entries a = []"
      and w: "numeric a \<or> slots a = []" and d: "\<forall>v \<in> set (slots a). v < 2147483647"
      and n: "np < 2147483647" by blast+
    from reh[OF c] obtain r where r: "smallintset_rehash hash data a newsz np = Some r"
      by blast
    from rehash_no_fault[OF r w n d] r show ?thesis by blast
  qed
  have iok: "\<exists>a'. jl_smallintset_insert n_inline hash val data a = Some (Inr a')"
    if "(jl_array_nrows a = 0 \<or> jl_array_nrows a = 2 ^ i) \<and>
        (numeric a \<or> slots a = [] \<and> el a = AnyT) \<and>
        (\<forall>v \<in> set (slots a). v < 2147483647) \<and> val + 1 < 2147483647"
  proof -
    from that have c: "jl_array_nrows a = 0 \<or> jl_array_nrows a = 2 ^ i"
      and w: "numeric a \<or> slots a = [] \<and> el a = AnyT"
      and d: "\<forall>v \<in> set (slots a). v < 2147483647" and v: "val + 1 < 2147483647"
      by blast+
    from ins[OF c] obtain r' where r': "jl_smallintset_insert n_inline hash val data a = Some r'"
      by blast
    from insert_no_fault[OF r' w d v] r' show ?thesis by blast
  qed
  show ?thesis using reh ins rok iok by blast
qed

theorem insert_and_rehash_terminate_witness:
  "length (entries \<lparr>el = UInt8, slots = [1, 2]\<rparr>) \<le> 2 ^ 56 \<and> (1::nat) \<le> 63 \<and>
   (32::nat) = 2 ^ 5 \<and> jl_array_nrows \<lparr>el = UInt8, slots = [1, 2]\<rparr> = 2 ^ 1 \<and>
   numeric \<lparr>el = UInt8, slots = [1, 2]\<rparr> \<and>
   (\<exists>newa. smallintset_rehash hash_id () \<lparr>el = UInt8, slots = [1, 2]\<rparr> (2 ^ 1) 0 =
      Some (Inr newa)) \<and>
   (\<exists>a'. jl_smallintset_insert 32 hash_id 2 () \<lparr>el = UInt8, slots = [1, 2]\<rparr> = Some (Inr a'))"
proof -
  let ?a = "\<lparr>el = UInt8, slots = [1, 2]\<rparr>"
  have size: "length (entries ?a) \<le> 2 ^ 56" by (simp add: entries_def)
  have i: "(1::nat) \<le> 63" by simp
  have N: "(32::nat) = 2 ^ 5" "(1::nat) \<le> 5" "(5::nat) \<le> 63" by simp_all
  have cap: "jl_array_nrows ?a = 2 ^ 1" by (simp add: jl_array_nrows_def)
  have num: "numeric ?a" by (simp add: numeric_def)
  have dom: "\<forall>v \<in> set (slots ?a). v < 2147483647" by simp
  note t = insert_and_rehash_terminate[OF size i N, of "2 ^ 1" hash_id "()" 0 2]
  have z: "(0::nat) < 2147483647" by simp
  from t have "((2::nat) ^ 1 = 2 ^ 1 \<or> entries ?a = []) \<and> (numeric ?a \<or> slots ?a = []) \<and>
        (\<forall>v \<in> set (slots ?a). v < 2147483647) \<and> (0::nat) < 2147483647 \<longrightarrow>
        (\<exists>newa. smallintset_rehash hash_id () ?a (2 ^ 1) 0 = Some (Inr newa))"
    by (elim conjE)
  with num dom z have a: "\<exists>newa. smallintset_rehash hash_id () ?a (2 ^ 1) 0 = Some (Inr newa)"
    by blast
  have v: "(2::nat) + 1 < 2147483647" by simp
  from t have "(jl_array_nrows ?a = 0 \<or> jl_array_nrows ?a = 2 ^ 1) \<and>
        (numeric ?a \<or> slots ?a = [] \<and> el ?a = AnyT) \<and>
        (\<forall>v \<in> set (slots ?a). v < 2147483647) \<and> (2::nat) + 1 < 2147483647 \<longrightarrow>
        (\<exists>a'. jl_smallintset_insert 32 hash_id 2 () ?a = Some (Inr a'))"
    by (elim conjE)
  with cap num dom v
  have b: "\<exists>a'. jl_smallintset_insert 32 hash_id 2 () ?a = Some (Inr a')" by blast
  show ?thesis using size i N(1) cap num a b by blast
qed

section \<open>Tables of fewer than two slots\<close>

text \<open>
  Claim C10. The direct placement reports failure on every table of capacity 0 or 1 and
  leaves the table as it is, so that insert first rehashes such a table to the baseline
  capacity \<open>HT_N_INLINE\<close>. Consequently, over the life of an index set that starts without
  entries at a capacity of 0 or 1, or at a capacity of at least \<open>HT_N_INLINE\<close> (the
  invariant \<open>table_inv\<close>), with capacities and \<open>HT_N_INLINE\<close> powers of two: every table
  that insert returns has at least \<open>HT_N_INLINE\<close> slots, every table that a rehash of
  insert publishes keeps the invariant, and a table under the invariant that holds a
  non-zero slot has at least \<open>HT_N_INLINE\<close> slots.
\<close>

theorem small_tables_never_written:
  assumes N: "n_inline = 2 ^ m" "1 \<le> m"
    and inv: "table_inv n_inline a"
    and cap: "jl_array_nrows a = 0 \<or> jl_array_nrows a = 2 ^ i"
  shows "(jl_array_nrows a \<le> 1 \<longrightarrow>
        smallintset_insert_aux a hv v = Inr (False, a) \<and>
        insert_retry n_inline hash val data a =
          Option.bind (smallintset_rehash hash data a n_inline 0)
            (\<lambda>r. case r of Inl e \<Rightarrow> Some (Inl e)
                | Inr a'' \<Rightarrow> insert_retry n_inline hash val data a'')) \<and>
     (\<forall>a'. jl_smallintset_insert n_inline hash val data a = Some (Inr a') \<longrightarrow>
        n_inline \<le> jl_array_nrows a' \<and> table_inv n_inline a' \<and>
        (\<exists>j. jl_array_nrows a' = 2 ^ j)) \<and>
     (\<forall>newa np. smallintset_rehash hash data a (jl_array_nrows a) np = Some (Inr newa) \<or>
        smallintset_rehash hash data a (grow_newsz n_inline (jl_array_nrows a)) np =
          Some (Inr newa) \<longrightarrow> table_inv n_inline newa) \<and>
     (\<forall>t. table_inv n_inline t \<and> entries t \<noteq> [] \<longrightarrow> n_inline \<le> jl_array_nrows t)"
proof -
  have cap': "jl_array_nrows a = 0 \<or> (\<exists>i. jl_array_nrows a = 2 ^ i)" using cap by blast
  have one: "(1::nat) < n_inline"
  proof -
    have "(2::nat) ^ 1 \<le> 2 ^ m" using N(2) by (intro power_increasing) simp_all
    then show ?thesis using N(1) by simp
  qed
  have small: "smallintset_insert_aux a hv v = Inr (False, a) \<and>
        insert_retry n_inline hash val data a =
          Option.bind (smallintset_rehash hash data a n_inline 0)
            (\<lambda>r. case r of Inl e \<Rightarrow> Some (Inl e)
                | Inr a'' \<Rightarrow> insert_retry n_inline hash val data a'')"
    if le: "jl_array_nrows a \<le> 1"
  proof -
    have len: "length (slots a) \<le> 1" using le by (simp add: jl_array_nrows_def)
    have g: "grow_newsz n_inline (jl_array_nrows a) = n_inline"
      using le one by (simp add: grow_newsz_def)
    have "insert_retry n_inline hash val data a =
          Option.bind (smallintset_rehash hash data a n_inline 0)
            (\<lambda>r. case r of Inl e \<Rightarrow> Some (Inl e)
                | Inr a'' \<Rightarrow> insert_retry n_inline hash val data a'')"
      by (subst insert_retry.simps) (simp add: insert_aux_small[OF len] g)
    with insert_aux_small[OF len] show ?thesis by simp
  qed
  have ins: "n_inline \<le> jl_array_nrows a' \<and> table_inv n_inline a' \<and>
        (\<exists>j. jl_array_nrows a' = 2 ^ j)"
    if "jl_smallintset_insert n_inline hash val data a = Some (Inr a')" for a'
    using insert_inv[OF that N(1) inv cap'] by (simp add: table_inv_def)
  have big: "jl_array_nrows a = 0 \<or> n_inline \<le> jl_array_nrows a \<or>
      jl_array_nrows a \<le> 1 \<and> entries a = []"
    using inv by (auto simp: table_inv_def)
  note g = grow_cases[OF N(1) cap']
  have reh: "table_inv n_inline newa"
    if "smallintset_rehash hash data a (jl_array_nrows a) np = Some (Inr newa) \<or>
        smallintset_rehash hash data a (grow_newsz n_inline (jl_array_nrows a)) np =
          Some (Inr newa)" for newa np
    using that
  proof
    assume "smallintset_rehash hash data a (jl_array_nrows a) np = Some (Inr newa)"
    from rehash_keeps_inv[OF this cap' big] show ?thesis by simp
  next
    assume r: "smallintset_rehash hash data a (grow_newsz n_inline (jl_array_nrows a)) np =
        Some (Inr newa)"
    have "table_inv n_inline newa \<and>
        (jl_array_nrows newa = 0 \<or> (\<exists>i. jl_array_nrows newa = 2 ^ i))"
      by (rule rehash_keeps_inv[OF r]) (use g in blast)+
    then show ?thesis by simp
  qed
  have held: "n_inline \<le> jl_array_nrows t" if "table_inv n_inline t \<and> entries t \<noteq> []" for t
    using that by (auto simp: table_inv_def)
  show ?thesis using small ins reh held by blast
qed

theorem small_tables_never_written_witness:
  "(32::nat) = 2 ^ 5 \<and> table_inv 32 \<lparr>el = UInt8, slots = []\<rparr> \<and>
   jl_array_nrows \<lparr>el = UInt8, slots = []\<rparr> = 0 \<and>
   smallintset_insert_aux \<lparr>el = UInt8, slots = []\<rparr> 299 300 =
     Inr (False, \<lparr>el = UInt8, slots = []\<rparr>) \<and>
   jl_smallintset_insert 32 hash_id 299 () \<lparr>el = UInt8, slots = []\<rparr> =
     Some (Inr \<lparr>el = UInt8, slots = (replicate 32 0)[11 := 44]\<rparr>) \<and>
   32 \<le> jl_array_nrows \<lparr>el = UInt8, slots = (replicate 32 0)[11 := 44]\<rparr>"
proof -
  let ?a = "\<lparr>el = UInt8, slots = []\<rparr>"
  have N: "(32::nat) = 2 ^ 5" "(1::nat) \<le> 5" by simp_all
  have inv: "table_inv 32 ?a" by (simp add: table_inv_def jl_array_nrows_def entries_def)
  have z: "jl_array_nrows ?a = 0" by (simp add: jl_array_nrows_def)
  then have cap: "jl_array_nrows ?a = 0 \<or> jl_array_nrows ?a = 2 ^ 0" by simp
  note t = small_tables_never_written[OF N inv cap, of 299 300 hash_id 299 "()"]
  from t z have s: "smallintset_insert_aux ?a 299 300 = Inr (False, ?a)" by simp
  from t insert_299_empty
  have c: "32 \<le> jl_array_nrows \<lparr>el = UInt8, slots = (replicate 32 0)[11 := 44]\<rparr>" by blast
  show ?thesis using N(1) inv z s insert_299_empty c by blast
qed

end
